theory Spec2Isabelle
  imports Complex_Main "HOL-Library.AList" "HOL-Library.Sublist"
begin

section \<open>Python values and exceptions\<close>

text \<open>
  The exporter handles parsed JSON throughout: API responses, request parameters and the
  records read back from export files. A dictionary is an association list (Python keeps
  insertion order); the number under \<open>JFloat\<close> is kept as the rational it denotes.
\<close>

datatype json =
    JNull
  | JBool bool
  | JInt int
  | JFloat rat
  | JStr string
  | JList "json list"
  | JDict "(string \<times> json) list"

text \<open>
  The value of an HTTP response header, classified by what Python's built-in \<open>int()\<close>
  makes of it: \<open>IntText n\<close> is any text that \<open>int()\<close> parses to \<open>n\<close>,
  \<open>OtherText s\<close> a text \<open>s\<close> on which \<open>int()\<close> raises \<open>ValueError\<close>.
\<close>

datatype header_value = IntText int | OtherText string

text \<open>
  The exceptions that occur. \<open>SpotifyException\<close> carries its \<open>http_status\<close> and its
  \<open>headers\<close> attribute (\<open>None\<close> when the object has no such attribute, which the
  source tests with \<open>hasattr\<close>).
\<close>

datatype exn =
    SpotifyException int "(string \<times> header_value) list option"
  | TypeError
  | AttributeError
  | KeyError
  | IndexError
  | ValueError
  | OverflowError
  | OtherException string

section \<open>Python operations on JSON values\<close>

text \<open>Truth value testing (\<open>if x\<close>, \<open>not x\<close>, \<open>while x\<close>).\<close>

fun truthy :: "json \<Rightarrow> bool" where
  "truthy JNull = False"
| "truthy (JBool b) = b"
| "truthy (JInt i) = (i \<noteq> 0)"
| "truthy (JFloat r) = (r \<noteq> 0)"
| "truthy (JStr s) = (s \<noteq> [])"
| "truthy (JList xs) = (xs \<noteq> [])"
| "truthy (JDict d) = (d \<noteq> [])"

fun is_list :: "json \<Rightarrow> bool" where
  "is_list (JList xs) = True"
| "is_list _ = False"

text \<open>
  \<open>key in obj\<close> for a string \<open>key\<close>: a key test on a dictionary, a membership
  test on a list, a substring test on a string, \<open>TypeError\<close> on anything else.
\<close>

fun py_in :: "string \<Rightarrow> json \<Rightarrow> exn + bool" where
  "py_in k (JDict d) = Inr (k \<in> fst ` set d)"
| "py_in k (JList xs) = Inr (JStr k \<in> set xs)"
| "py_in k (JStr s) = Inr (sublist k s)"
| "py_in k _ = Inl TypeError"

text \<open>\<open>obj.get(key, default)\<close>: only dictionaries have the method.\<close>

fun py_get :: "json \<Rightarrow> string \<Rightarrow> json \<Rightarrow> exn + json" where
  "py_get (JDict d) k dflt = Inr (case map_of d k of Some v \<Rightarrow> v | None \<Rightarrow> dflt)"
| "py_get _ k dflt = Inl AttributeError"

text \<open>\<open>obj[key]\<close> for a string \<open>key\<close>.\<close>

fun py_getitem :: "json \<Rightarrow> string \<Rightarrow> exn + json" where
  "py_getitem (JDict d) k = (case map_of d k of Some v \<Rightarrow> Inr v | None \<Rightarrow> Inl KeyError)"
| "py_getitem _ k = Inl TypeError"

text \<open>\<open>obj[-1]\<close>; the keys of a JSON dictionary are strings, so \<open>-1\<close> is never one.\<close>

fun py_last :: "json \<Rightarrow> exn + json" where
  "py_last (JList xs) = (if xs = [] then Inl IndexError else Inr (last xs))"
| "py_last (JStr s) = (if s = [] then Inl IndexError else Inr (JStr [last s]))"
| "py_last (JDict d) = Inl KeyError"
| "py_last _ = Inl TypeError"

text \<open>
  The elements that \<open>list.extend(obj)\<close> appends: those of a list, the characters of a
  string, the keys of a dictionary; anything else is not iterable.
\<close>

fun py_iter :: "json \<Rightarrow> exn + json list" where
  "py_iter (JList xs) = Inr xs"
| "py_iter (JStr s) = Inr (map (\<lambda>c. JStr [c]) s)"
| "py_iter (JDict d) = Inr (map (\<lambda>kv. JStr (fst kv)) d)"
| "py_iter _ = Inl TypeError"

text \<open>
  Members of a \<open>set\<close> must be hashable: lists and dictionaries are not. Hashable JSON
  values are compared as Python does, numbers (booleans included) by their value.
\<close>

fun hashable :: "json \<Rightarrow> bool" where
  "hashable (JList xs) = False"
| "hashable (JDict d) = False"
| "hashable _ = True"

fun num_val :: "json \<Rightarrow> rat option" where
  "num_val (JBool b) = Some (if b then 1 else 0)"
| "num_val (JInt i) = Some (of_int i)"
| "num_val (JFloat r) = Some r"
| "num_val _ = None"

definition py_eq :: "json \<Rightarrow> json \<Rightarrow> bool" where
  "py_eq a b =
     (case (num_val a, num_val b) of
        (Some x, Some y) \<Rightarrow> x = y
      | (None, None) \<Rightarrow> a = b
      | _ \<Rightarrow> False)"

section \<open>utils/api\_utils.py: the backoff retry executor\<close>

definition default_retry_on_status :: "int list" where
  "default_retry_on_status = [429, 500, 502, 503, 504]"

text \<open>
  Python numbers. An \<open>int\<close> is unbounded. A \<open>float\<close> is a double: \<open>Finite m e\<close>
  is the number \<open>m * 2 ^ e\<close> (every finite double has this form), and there are the two
  infinities and not-a-number.
\<close>

datatype pyfloat = Finite int int | PosInf | NegInf | NaN

datatype pynum = PyInt int | PyFloat pyfloat

text \<open>The integer part of \<open>m * 2 ^ e\<close>, towards zero.\<close>

definition float_trunc :: "int \<Rightarrow> int \<Rightarrow> int" where
  "float_trunc m e =
     (if 0 \<le> e then m * 2 ^ nat e
      else if 0 \<le> m then m div 2 ^ nat (- e)
      else - ((- m) div 2 ^ nat (- e)))"

text \<open>
  What the interpreter contributes and the source does not define: the product
  \<open>x * y\<close> of two numbers (rounded as doubles are; it raises \<open>OverflowError\<close> when an
  \<open>int\<close> is too large to become a \<open>float\<close>), and \<open>time.sleep(x)\<close>, of which only
  the exception it raises, if any, matters here. Both are parameters of the model: what
  is proved holds whatever they do.
\<close>

record runtime =
  py_mul :: "pynum \<Rightarrow> pynum \<Rightarrow> exn + pynum"
  time_sleep :: "pynum \<Rightarrow> exn option"

text \<open>
  The object bound to \<open>retry_after\<close> before the conversion: the header value when the
  exception has headers with a \<open>Retry-After\<close> entry, the current delay otherwise.
  \<open>int(x)\<close> truncates a finite float, raises \<open>ValueError\<close> on not-a-number and on a
  text that is no integer, and \<open>OverflowError\<close> on an infinity.
\<close>

datatype pyval = Num pynum | Hdr header_value

fun py_int :: "pyval \<Rightarrow> exn + int" where
  "py_int (Num (PyInt n)) = Inr n"
| "py_int (Num (PyFloat (Finite m e))) = Inr (float_trunc m e)"
| "py_int (Num (PyFloat NaN)) = Inl ValueError"
| "py_int (Num (PyFloat PosInf)) = Inl OverflowError"
| "py_int (Num (PyFloat NegInf)) = Inl OverflowError"
| "py_int (Hdr (IntText n)) = Inr n"
| "py_int (Hdr (OtherText s)) = Inl ValueError"

definition retry_after_hint :: "(string \<times> header_value) list option \<Rightarrow> header_value option" where
  "retry_after_hint hdrs = (case hdrs of None \<Rightarrow> None | Some h \<Rightarrow> map_of h ''Retry-After'')"

text \<open>
  Lines 68 to 72: the conversion is tried, and \<open>ValueError\<close> and \<open>TypeError\<close> fall
  back to the current delay; any other exception leaves the function.
\<close>

definition retry_after_of :: "(string \<times> header_value) list option \<Rightarrow> pynum \<Rightarrow> exn + pynum" where
  "retry_after_of hdrs current_delay =
     (let retry_after = (case retry_after_hint hdrs of
                           Some v \<Rightarrow> Hdr v
                         | None \<Rightarrow> Num current_delay)
      in case py_int retry_after of
           Inr n \<Rightarrow> Inr (PyInt n)
         | Inl ValueError \<Rightarrow> Inr current_delay
         | Inl TypeError \<Rightarrow> Inr current_delay
         | Inl e \<Rightarrow> Inl e)"

text \<open>
  A thunk with side effects is a state transformer: from the state of the outside world
  it yields what the call does (\<open>Inl\<close> an exception, \<open>Inr\<close> the value returned) and
  the world afterwards.

  The loop of \<open>retry_on_api_error\<close>. Its result is what the function does (\<open>Inl\<close> the
  exception that leaves it, \<open>Inr (Some v)\<close> the value returned, \<open>Inr None\<close> when
  control falls off the end of the function and Python returns \<open>None\<close>), the world
  after the last call of the thunk, and the arguments of the \<open>time.sleep\<close> calls that
  returned, in order. An exception raised inside the handler, by the conversion, by
  \<open>time.sleep\<close> or by the multiplication, leaves the function.
\<close>

function retry_loop ::
  "runtime \<Rightarrow> ('s \<Rightarrow> (exn + 'a) \<times> 's) \<Rightarrow> int \<Rightarrow> pynum \<Rightarrow> int list \<Rightarrow> int \<Rightarrow> pynum \<Rightarrow> 's
    \<Rightarrow> pynum list \<Rightarrow> (exn + 'a option) \<times> 's \<times> pynum list" where
  "retry_loop rt func max_retries backoff_factor retry_on_status attempt current_delay s slept =
     (if attempt < max_retries then
        (case func s of
           (Inr v, s') \<Rightarrow> (Inr (Some v), s', slept)
         | (Inl (SpotifyException http_status hdrs), s') \<Rightarrow>
             (if http_status \<in> set retry_on_status then
                (if attempt + 1 \<ge> max_retries then
                   (Inl (SpotifyException http_status hdrs), s', slept)
                 else
                   (case retry_after_of hdrs current_delay of
                      Inl e \<Rightarrow> (Inl e, s', slept)
                    | Inr retry_after \<Rightarrow>
                        (case time_sleep rt retry_after of
                           Some e \<Rightarrow> (Inl e, s', slept)
                         | None \<Rightarrow>
                             (case py_mul rt current_delay backoff_factor of
                                Inl e \<Rightarrow> (Inl e, s', slept @ [retry_after])
                              | Inr current_delay' \<Rightarrow>
                                  retry_loop rt func max_retries backoff_factor retry_on_status
                                    (attempt + 1) current_delay' s' (slept @ [retry_after])))))
              else (Inl (SpotifyException http_status hdrs), s', slept))
         | (Inl e, s') \<Rightarrow> (Inl e, s', slept))
      else (Inr None, s, slept))"
  by pat_completeness auto
termination
  by (relation "measure (\<lambda>(rt, func, max_retries, backoff_factor, retry_on_status, attempt,
        current_delay, s, slept). nat (max_retries - attempt))") auto

declare retry_loop.simps [simp del]

definition retry_on_api_error ::
  "runtime \<Rightarrow> ('s \<Rightarrow> (exn + 'a) \<times> 's) \<Rightarrow> int \<Rightarrow> int \<Rightarrow> pynum \<Rightarrow> int list option \<Rightarrow> 's
    \<Rightarrow> (exn + 'a option) \<times> 's \<times> pynum list" where
  "retry_on_api_error rt func max_retries delay backoff_factor retry_on_status s =
     (let retry_on_status = (case retry_on_status of
                               None \<Rightarrow> default_retry_on_status
                             | Some l \<Rightarrow> l)
      in retry_loop rt func max_retries backoff_factor retry_on_status 0 (PyInt delay) s [])"

text \<open>
  A thunk whose behaviour depends only on how often it has been invoked before: the world
  is the number of invocations so far.
\<close>

definition scripted :: "(nat \<Rightarrow> exn + 'a) \<Rightarrow> nat \<Rightarrow> (exn + 'a) \<times> nat" where
  "scripted script k = (script k, Suc k)"

section \<open>exporters/base\_exporter.py: offset pagination\<close>

definition API_RETRY_ATTEMPTS :: int where
  "API_RETRY_ATTEMPTS = 3"

definition API_RETRY_DELAY :: int where
  "API_RETRY_DELAY = 2"

definition DEFAULT_LIMIT :: int where
  "DEFAULT_LIMIT = 50"

text \<open>The default \<open>backoff_factor = 2.0\<close> of \<open>retry_on_api_error\<close>, a float.\<close>

definition default_backoff_factor :: pynum where
  "default_backoff_factor = PyFloat (Finite 2 0)"

text \<open>
  What is asked of the API client: a named method with its positional and keyword
  arguments, or \<open>next(response)\<close>. The client is any function from the requests it has
  received before and the present request to the outcome of the call; the world is the
  list of requests made so far.
\<close>

datatype request =
    Call string "json list" "(string \<times> json) list"
  | Next json

type_synonym client = "request list \<Rightarrow> request \<Rightarrow> exn + json"

definition invoke :: "client \<Rightarrow> request \<Rightarrow> request list \<Rightarrow> (exn + json) \<times> request list" where
  "invoke spotify req reqs = (spotify reqs req, reqs @ [req])"

text \<open>The object that \<open>retry_on_api_error\<close> hands back, \<open>None\<close> included.\<close>

definition response_of :: "json option \<Rightarrow> json" where
  "response_of r = (case r of None \<Rightarrow> JNull | Some j \<Rightarrow> j)"

text \<open>\<open>if 'items' in response: results.extend(response['items'])\<close>\<close>

definition collect_items :: "json \<Rightarrow> json list \<Rightarrow> exn + json list" where
  "collect_items response results =
     (case py_in ''items'' response of
        Inl e \<Rightarrow> Inl e
      | Inr False \<Rightarrow> Inr results
      | Inr True \<Rightarrow>
          (case py_getitem response ''items'' of
             Inl e \<Rightarrow> Inl e
           | Inr v \<Rightarrow>
               (case py_iter v of
                  Inl e \<Rightarrow> Inl e
                | Inr xs \<Rightarrow> Inr (results @ xs))))"

text \<open>
  The \<open>while response.get('next')\<close> loop. It may run forever, so it is a partial
  function: \<open>None\<close> means that the loop never returns. A result carries the items or the
  exception, the requests made and the delays slept.
\<close>

partial_function (option) paginate_loop ::
  "runtime \<Rightarrow> client \<Rightarrow> json \<Rightarrow> json list \<Rightarrow> request list \<Rightarrow> pynum list
    \<Rightarrow> ((exn + json list) \<times> request list \<times> pynum list) option" where
  "paginate_loop rt spotify response results reqs slept =
     (case py_get response ''next'' JNull of
        Inl e \<Rightarrow> Some (Inl e, reqs, slept)
      | Inr nxt \<Rightarrow>
          if truthy nxt then
            (case retry_on_api_error rt (invoke spotify (Next response))
                    API_RETRY_ATTEMPTS API_RETRY_DELAY default_backoff_factor None reqs of
               (Inl e, reqs', d) \<Rightarrow> Some (Inl e, reqs', slept @ d)
             | (Inr r, reqs', d) \<Rightarrow>
                 (case collect_items (response_of r) results of
                    Inl e \<Rightarrow> Some (Inl e, reqs', slept @ d)
                  | Inr results' \<Rightarrow>
                      paginate_loop rt spotify (response_of r) results' reqs' (slept @ d)))
          else Some (Inr results, reqs, slept))"

definition paginate ::
  "runtime \<Rightarrow> client \<Rightarrow> string \<Rightarrow> json list \<Rightarrow> (string \<times> json) list \<Rightarrow> request list
    \<Rightarrow> ((exn + json list) \<times> request list \<times> pynum list) option" where
  "paginate rt spotify method args kwargs reqs =
     (let kwargs = (if ''limit'' \<notin> fst ` set kwargs
                    then kwargs @ [(''limit'', JInt DEFAULT_LIMIT)] else kwargs)
      in case retry_on_api_error rt (invoke spotify (Call method args kwargs))
                API_RETRY_ATTEMPTS API_RETRY_DELAY default_backoff_factor None reqs of
           (Inl e, reqs', d) \<Rightarrow> Some (Inl e, reqs', d)
         | (Inr r, reqs', d) \<Rightarrow>
             (case collect_items (response_of r) [] of
                Inl e \<Rightarrow> Some (Inl e, reqs', d)
              | Inr results \<Rightarrow> paginate_loop rt spotify (response_of r) results reqs' d))"

section \<open>exporters/following\_exporter.py: the cursor walk\<close>

text \<open>\<open>response.get('artists', {}).get(key, default)\<close>\<close>

definition artists_get :: "json \<Rightarrow> string \<Rightarrow> json \<Rightarrow> exn + json" where
  "artists_get response k dflt =
     (case py_get response ''artists'' (JDict []) of
        Inl e \<Rightarrow> Inl e
      | Inr a \<Rightarrow> py_get a k dflt)"

text \<open>\<open>items[-1]['id']\<close>\<close>

definition last_id :: "json \<Rightarrow> exn + json" where
  "last_id items = (case py_last items of Inl e \<Rightarrow> Inl e | Inr item \<Rightarrow> py_getitem item ''id'')"

definition followed_request :: "json \<Rightarrow> request" where
  "followed_request after =
     Call ''current_user_followed_artists'' [] [(''limit'', JInt 50), (''after'', after)]"

text \<open>
  The \<open>while True\<close> loop of \<open>get_followed_artists\<close>; the client is called directly.
\<close>

partial_function (option) followed_loop ::
  "client \<Rightarrow> json \<Rightarrow> json list \<Rightarrow> request list
    \<Rightarrow> ((exn + json list) \<times> request list) option" where
  "followed_loop spotify after artists reqs =
     (case invoke spotify (followed_request after) reqs of
        (Inl e, reqs') \<Rightarrow> Some (Inl e, reqs')
      | (Inr response, reqs') \<Rightarrow>
          (case artists_get response ''items'' (JList []) of
             Inl e \<Rightarrow> Some (Inl e, reqs')
           | Inr items \<Rightarrow>
               (case py_iter items of
                  Inl e \<Rightarrow> Some (Inl e, reqs')
                | Inr xs \<Rightarrow>
                    (case artists_get response ''next'' JNull of
                       Inl e \<Rightarrow> Some (Inl e, reqs')
                     | Inr nxt \<Rightarrow>
                         if \<not> truthy nxt then Some (Inr (artists @ xs), reqs')
                         else if truthy items then
                           (case last_id items of
                              Inl e \<Rightarrow> Some (Inl e, reqs')
                            | Inr after' \<Rightarrow> followed_loop spotify after' (artists @ xs) reqs')
                         else Some (Inr (artists @ xs), reqs')))))"

definition get_followed_artists ::
  "client \<Rightarrow> request list \<Rightarrow> ((exn + json list) \<times> request list) option" where
  "get_followed_artists spotify reqs = followed_loop spotify JNull [] reqs"

section \<open>utils/file\_utils.py: merging export records\<close>

definition id_fields :: "string list" where
  "id_fields = [''id'', ''uri'', ''href'']"

fun list_items :: "json \<Rightarrow> json list" where
  "list_items (JList xs) = xs"
| "list_items _ = []"

fun find_id_field_loop :: "json list \<Rightarrow> string option" where
  "find_id_field_loop [] = None"
| "find_id_field_loop (item # rest) =
     (case item of
        JDict d \<Rightarrow>
          (case find (\<lambda>field. field \<in> fst ` set d) id_fields of
             Some field \<Rightarrow> Some field
           | None \<Rightarrow> find_id_field_loop rest)
      | _ \<Rightarrow> find_id_field_loop rest)"

definition find_id_field :: "json \<Rightarrow> string option" where
  "find_id_field data_list =
     (if \<not> truthy data_list \<or> \<not> is_list data_list then None
      else find_id_field_loop (list_items data_list))"

text \<open>
  The set comprehension
  \<open>{item.get(id_field) for item in existing_data["data"] if id_field in item}\<close>;
  the set is kept as the list of its members.
\<close>

fun existing_ids_of :: "string \<Rightarrow> json list \<Rightarrow> exn + json list" where
  "existing_ids_of id_field [] = Inr []"
| "existing_ids_of id_field (item # rest) =
     (case py_in id_field item of
        Inl e \<Rightarrow> Inl e
      | Inr False \<Rightarrow> existing_ids_of id_field rest
      | Inr True \<Rightarrow>
          (case py_get item id_field JNull of
             Inl e \<Rightarrow> Inl e
           | Inr v \<Rightarrow>
               if \<not> hashable v then Inl TypeError
               else (case existing_ids_of id_field rest of
                       Inl e \<Rightarrow> Inl e
                     | Inr ids \<Rightarrow> Inr (v # ids))))"

text \<open>\<open>v in existing_ids\<close>, for a hashable \<open>v\<close>.\<close>

definition in_ids :: "json \<Rightarrow> json list \<Rightarrow> bool" where
  "in_ids v ids = list_ex (py_eq v) ids"

text \<open>The loop \<open>for item in new_data["data"]\<close> that appends to \<open>merged_data\<close>.\<close>

fun append_new :: "string \<Rightarrow> json list \<Rightarrow> json list \<Rightarrow> json list \<Rightarrow> exn + json list" where
  "append_new id_field existing_ids [] merged_data = Inr merged_data"
| "append_new id_field existing_ids (item # rest) merged_data =
     (case py_in id_field item of
        Inl e \<Rightarrow> Inl e
      | Inr False \<Rightarrow> append_new id_field existing_ids rest (merged_data @ [item])
      | Inr True \<Rightarrow>
          (case py_getitem item id_field of
             Inl e \<Rightarrow> Inl e
           | Inr v \<Rightarrow>
               if \<not> hashable v then Inl TypeError
               else if \<not> in_ids v existing_ids
                 then append_new id_field existing_ids rest (merged_data @ [item])
                 else append_new id_field existing_ids rest merged_data))"

text \<open>
  Lines 98 to 103. \<open>now\<close> is \<open>datetime.now().isoformat()\<close>, the reading of the
  system clock. \<open>{**x}\<close> raises \<open>TypeError\<close> unless \<open>x\<close> is a mapping.
\<close>

definition merged_metadata_of ::
  "string \<Rightarrow> (string \<times> json) list \<Rightarrow> (string \<times> json) list \<Rightarrow> exn + json" where
  "merged_metadata_of now existing_data new_data =
     (if ''metadata'' \<in> fst ` set existing_data \<and> ''metadata'' \<in> fst ` set new_data then
        (case py_getitem (JDict existing_data) ''metadata'' of
           Inl e \<Rightarrow> Inl e
         | Inr (JDict em) \<Rightarrow>
             (case py_getitem (JDict new_data) ''metadata'' of
                Inl e \<Rightarrow> Inl e
              | Inr nm \<Rightarrow>
                  (case py_get nm ''export_date'' (JStr now) of
                     Inl e \<Rightarrow> Inl e
                   | Inr update_date \<Rightarrow>
                       (case py_get (JDict em) ''export_date'' JNull of
                          Inl e \<Rightarrow> Inl e
                        | Inr previous \<Rightarrow>
                            Inr (JDict (AList.update ''previous_export_date'' previous
                                          (AList.update ''update_date'' update_date em))))))
         | Inr _ \<Rightarrow> Inl TypeError)
      else py_get (JDict new_data) ''metadata'' (JDict []))"

text \<open>Lines 106 to 128.\<close>

definition merged_data_of :: "(string \<times> json) list \<Rightarrow> (string \<times> json) list \<Rightarrow> exn + json" where
  "merged_data_of existing_data new_data =
     (if ''data'' \<in> fst ` set existing_data \<and> ''data'' \<in> fst ` set new_data then
        (case py_getitem (JDict existing_data) ''data'' of
           Inl e \<Rightarrow> Inl e
         | Inr ed \<Rightarrow>
             (case py_getitem (JDict new_data) ''data'' of
                Inl e \<Rightarrow> Inl e
              | Inr nd \<Rightarrow>
                  if is_list ed \<and> is_list nd then
                    (case find_id_field ed of
                       Some id_field \<Rightarrow>
                         (case existing_ids_of id_field (list_items ed) of
                            Inl e \<Rightarrow> Inl e
                          | Inr existing_ids \<Rightarrow>
                              (case append_new id_field existing_ids (list_items nd) (list_items ed) of
                                 Inl e \<Rightarrow> Inl e
                               | Inr merged_data \<Rightarrow> Inr (JList merged_data)))
                     | None \<Rightarrow> Inr (JList (list_items ed @ list_items nd)))
                  else Inr nd))
      else py_get (JDict new_data) ''data'' (JDict []))"

definition merge_json_data ::
  "string \<Rightarrow> (string \<times> json) list \<Rightarrow> (string \<times> json) list
    \<Rightarrow> exn + (string \<times> json) list" where
  "merge_json_data now existing_data new_data =
     (case merged_metadata_of now existing_data new_data of
        Inl e \<Rightarrow> Inl e
      | Inr merged_metadata \<Rightarrow>
          (case merged_data_of existing_data new_data of
             Inl e \<Rightarrow> Inl e
           | Inr merged_data \<Rightarrow>
               Inr [(''metadata'', merged_metadata), (''data'', merged_data)]))"

section \<open>utils/file\_utils.py: the merge and the objects it touches\<close>

text \<open>
  To say what \<open>merge_json_data\<close> does to its arguments, the objects it is handed are put
  on a heap. An address is an index into the list of objects; a new object goes to the end.
  A record (the dictionary \<open>existing_data\<close>, \<open>new_data\<close> or the one returned) holds
  references to the objects under its keys; any other object is given by its content. The
  world also has the files on disk, by path.
\<close>

datatype obj = RecordObj "(string \<times> nat) list" | ValueObj json

record world =
  heap :: "obj list"
  files :: "(string \<times> string) list"

definition alloc :: "obj \<Rightarrow> world \<Rightarrow> nat \<times> world" where
  "alloc ob w = (length (heap w), w\<lparr>heap := heap w @ [ob]\<rparr>)"

text \<open>An update in place of the object at address \<open>a\<close>.\<close>

definition store :: "nat \<Rightarrow> obj \<Rightarrow> world \<Rightarrow> world" where
  "store a ob w = w\<lparr>heap := (heap w)[a := ob]\<rparr>"

definition fields_at :: "world \<Rightarrow> nat \<Rightarrow> (string \<times> nat) list option" where
  "fields_at w a =
     (if a < length (heap w)
      then (case heap w ! a of RecordObj refs \<Rightarrow> Some refs | ValueObj j \<Rightarrow> None)
      else None)"

definition content_at :: "world \<Rightarrow> nat \<Rightarrow> json option" where
  "content_at w a =
     (if a < length (heap w)
      then (case heap w ! a of ValueObj j \<Rightarrow> Some j | RecordObj refs \<Rightarrow> None)
      else None)"

text \<open>\<open>record[key]\<close>, read through the reference.\<close>

definition deref :: "world \<Rightarrow> (string \<times> nat) list \<Rightarrow> string \<Rightarrow> json option" where
  "deref w refs k = (case map_of refs k of Some r \<Rightarrow> content_at w r | None \<Rightarrow> None)"

text \<open>Raised where the heap holds no object of the kind the source takes for granted.\<close>

definition ill_formed :: exn where
  "ill_formed = OtherException ''no such object''"

text \<open>
  Lines 98 to 103: \<open>{**existing_data["metadata"]}\<close> makes a new dictionary, the two
  assignments update that new dictionary in place; the other branch hands on the new
  record's own \<open>metadata\<close> object, or a new empty dictionary.
\<close>

definition merged_metadata_on ::
  "string \<Rightarrow> world \<Rightarrow> (string \<times> nat) list \<Rightarrow> (string \<times> nat) list \<Rightarrow> (exn + nat) \<times> world" where
  "merged_metadata_on now w existing_data new_data =
     (if ''metadata'' \<in> fst ` set existing_data \<and> ''metadata'' \<in> fst ` set new_data then
        (case (deref w existing_data ''metadata'', deref w new_data ''metadata'') of
           (Some (JDict em), Some nm) \<Rightarrow>
             (case alloc (ValueObj (JDict em)) w of
                (merged_metadata, w1) \<Rightarrow>
                  (case py_get nm ''export_date'' (JStr now) of
                     Inl e \<Rightarrow> (Inl e, w1)
                   | Inr update_date \<Rightarrow>
                       (case store merged_metadata
                               (ValueObj (JDict (AList.update ''update_date'' update_date em))) w1 of
                          w2 \<Rightarrow>
                            (case py_get (JDict em) ''export_date'' JNull of
                               Inl e \<Rightarrow> (Inl e, w2)
                             | Inr previous \<Rightarrow>
                                 (Inr merged_metadata,
                                  store merged_metadata
                                    (ValueObj (JDict (AList.update ''previous_export_date'' previous
                                       (AList.update ''update_date'' update_date em)))) w2)))))
         | (Some _, Some nm) \<Rightarrow> (Inl TypeError, w)
         | _ \<Rightarrow> (Inl ill_formed, w))
      else
        (case map_of new_data ''metadata'' of
           Some r \<Rightarrow> (Inr r, w)
         | None \<Rightarrow> (case alloc (ValueObj (JDict [])) w of (a, w1) \<Rightarrow> (Inr a, w1))))"

text \<open>
  Lines 106 to 128: \<open>existing_data["data"].copy()\<close> makes a new list and the loop appends
  to that new list (written here once, with the list as the loop leaves it);
  \<open>existing_data["data"] + new_data["data"]\<close> makes a new list; the other branches hand on
  the new record's own \<open>data\<close> object, or a new empty dictionary.
\<close>

definition merged_data_on ::
  "world \<Rightarrow> (string \<times> nat) list \<Rightarrow> (string \<times> nat) list \<Rightarrow> (exn + nat) \<times> world" where
  "merged_data_on w existing_data new_data =
     (if ''data'' \<in> fst ` set existing_data \<and> ''data'' \<in> fst ` set new_data then
        (case (deref w existing_data ''data'', deref w new_data ''data'', map_of new_data ''data'') of
           (Some ed, Some nd, Some nd_ref) \<Rightarrow>
             if is_list ed \<and> is_list nd then
               (case find_id_field ed of
                  Some id_field \<Rightarrow>
                    (case existing_ids_of id_field (list_items ed) of
                       Inl e \<Rightarrow> (Inl e, w)
                     | Inr existing_ids \<Rightarrow>
                         (case alloc (ValueObj (JList (list_items ed))) w of
                            (merged_data, w1) \<Rightarrow>
                              (case append_new id_field existing_ids (list_items nd) (list_items ed) of
                                 Inl e \<Rightarrow> (Inl e, w1)
                               | Inr items \<Rightarrow>
                                   (Inr merged_data, store merged_data (ValueObj (JList items)) w1))))
                | None \<Rightarrow>
                    (case alloc (ValueObj (JList (list_items ed @ list_items nd))) w of
                       (merged_data, w1) \<Rightarrow> (Inr merged_data, w1)))
             else (Inr nd_ref, w)
         | _ \<Rightarrow> (Inl ill_formed, w))
      else
        (case map_of new_data ''data'' of
           Some r \<Rightarrow> (Inr r, w)
         | None \<Rightarrow> (case alloc (ValueObj (JDict [])) w of (a, w1) \<Rightarrow> (Inr a, w1))))"

text \<open>
  The function on addresses: it returns the address of the new record, or raises, and the
  world as it leaves it.
\<close>

definition merge_json_data_on :: "string \<Rightarrow> world \<Rightarrow> nat \<Rightarrow> nat \<Rightarrow> (exn + nat) \<times> world" where
  "merge_json_data_on now w existing_data new_data =
     (case (fields_at w existing_data, fields_at w new_data) of
        (Some existing_refs, Some new_refs) \<Rightarrow>
          (case merged_metadata_on now w existing_refs new_refs of
             (Inl e, w1) \<Rightarrow> (Inl e, w1)
           | (Inr merged_metadata, w1) \<Rightarrow>
               (case merged_data_on w1 existing_refs new_refs of
                  (Inl e, w2) \<Rightarrow> (Inl e, w2)
                | (Inr merged_data, w2) \<Rightarrow>
                    (case alloc (RecordObj [(''metadata'', merged_metadata), (''data'', merged_data)]) w2 of
                       (a, w3) \<Rightarrow> (Inr a, w3))))
      | _ \<Rightarrow> (Inl ill_formed, w))"

section \<open>Scenarios and observations\<close>

subsection \<open>Outcomes of a thunk\<close>

text \<open>The retryable set: the default of the source unless the caller gives one.\<close>

definition statuses_or_default :: "int list option \<Rightarrow> int list" where
  "statuses_or_default retry_on_status =
     (case retry_on_status of None \<Rightarrow> [429, 500, 502, 503, 504] | Some l \<Rightarrow> l)"

text \<open>An outcome is retryable when it is an API error whose status is in the retryable set.\<close>

definition retryable :: "int list \<Rightarrow> exn + 'a \<Rightarrow> bool" where
  "retryable statuses out =
     (case out of Inl (SpotifyException st hs) \<Rightarrow> st \<in> set statuses | _ \<Rightarrow> False)"

text \<open>It is fatal when it is an API error with any other status, or any other exception.\<close>

definition fatal :: "int list \<Rightarrow> exn + 'a \<Rightarrow> bool" where
  "fatal statuses out =
     (case out of
        Inl (SpotifyException st hs) \<Rightarrow> st \<notin> set statuses
      | Inl _ \<Rightarrow> True
      | Inr _ \<Rightarrow> False)"

definition out_headers :: "exn + 'a \<Rightarrow> (string \<times> header_value) list option" where
  "out_headers out = (case out of Inl (SpotifyException st hs) \<Rightarrow> hs | _ \<Rightarrow> None)"


text \<open>The first \<open>k\<close> invocations all have a retryable outcome.\<close>

definition retries_until :: "int list \<Rightarrow> (nat \<Rightarrow> exn + 'a) \<Rightarrow> nat \<Rightarrow> bool" where
  "retries_until statuses script k = (\<forall>i<k. retryable statuses (script i))"

text \<open>
  A run is undisturbed when nothing raises inside the handler: \<open>cur i\<close> being the backoff
  delay of round \<open>i\<close>, in every round that is reached and followed by another one the delay
  to wait is computed, \<open>time.sleep\<close> accepts it, and the product with the backoff factor is
  computed.
\<close>

definition undisturbed ::
  "runtime \<Rightarrow> (nat \<Rightarrow> exn + 'a) \<Rightarrow> int list \<Rightarrow> int \<Rightarrow> int \<Rightarrow> pynum \<Rightarrow> (nat \<Rightarrow> pynum) \<Rightarrow> bool" where
  "undisturbed rt script statuses max_retries delay backoff_factor cur \<longleftrightarrow>
     cur 0 = PyInt delay \<and>
     (\<forall>i. int i + 1 < max_retries \<and> retries_until statuses script (Suc i) \<longrightarrow>
        (\<exists>w. retry_after_of (out_headers (script i)) (cur i) = Inr w \<and> time_sleep rt w = None) \<and>
        py_mul rt (cur i) backoff_factor = Inr (cur (Suc i)))"



text \<open>Rate limited on the first \<open>n\<close> invocations, without headers of interest, then served.\<close>

definition flaky :: "nat \<Rightarrow> nat \<Rightarrow> exn + string" where
  "flaky n k = (if k < n then Inl (SpotifyException 429 (Some [])) else Inr ''page'')"

text \<open>Rate limited with a \<open>Retry-After\<close> header, then a 503 without headers, then served.\<close>

definition hinted :: "header_value \<Rightarrow> nat \<Rightarrow> exn + string" where
  "hinted h k =
     (if k = 0 then Inl (SpotifyException 429 (Some [(''Retry-After'', h)]))
      else if k = 1 then Inl (SpotifyException 503 None)
      else Inr ''page'')"

definition fatal_second :: "nat \<Rightarrow> exn + string" where
  "fatal_second k =
     (if k = 0 then Inl (SpotifyException 500 None)
      else if k = 1 then Inl (SpotifyException 404 None)
      else Inr ''page'')"

definition broken_first :: "nat \<Rightarrow> exn + string" where
  "broken_first k = (if k = 0 then Inl (OtherException ''ConnectionError'') else Inr ''page'')"

subsection \<open>The interpreter\<close>

text \<open>
  The arithmetic and the sleep of CPython 3.11, against which the scenarios are run. The
  product of two floats is the exact product rounded to the nearest double, ties to even;
  an \<open>int\<close> that meets a \<open>float\<close> is converted first. (Signed zeros are not told
  apart.)
\<close>

fun bit_length :: "nat \<Rightarrow> nat" where
  "bit_length n = (if n = 0 then 0 else Suc (bit_length (n div 2)))"

declare bit_length.simps [simp del]

definition infinity :: "int \<Rightarrow> pyfloat" where
  "infinity sign = (if 0 < sign then PosInf else NegInf)"

text \<open>
  \<open>m * 2 ^ e\<close> as a double: 53 significant bits, no exponent of the last place below
  \<open>-1074\<close>, infinity from \<open>2 ^ 1024\<close> on.
\<close>

definition round_to_double :: "int \<Rightarrow> int \<Rightarrow> pyfloat" where
  "round_to_double m e =
     (if m = 0 then Finite 0 0
      else
        (let a = nat \<bar>m\<bar>;
             top = int (bit_length a) + e;
             u = max (top - 53) (- 1074);
             s = u - e
         in if s \<le> 0 then (if 1024 < top then infinity m else Finite m e)
            else
              (let q = a div 2 ^ nat s;
                   r = a mod 2 ^ nat s;
                   half = 2 ^ (nat s - 1);
                   q' = (if half < r \<or> (r = half \<and> odd q) then q + 1 else q)
               in if 1024 < int (bit_length q') + u then infinity m
                  else Finite (sgn m * int q') u)))"

definition float_of_int :: "int \<Rightarrow> exn + pyfloat" where
  "float_of_int n =
     (case round_to_double n 0 of
        PosInf \<Rightarrow> Inl OverflowError
      | NegInf \<Rightarrow> Inl OverflowError
      | x \<Rightarrow> Inr x)"

fun float_sign :: "pyfloat \<Rightarrow> int" where
  "float_sign (Finite m e) = sgn m"
| "float_sign PosInf = 1"
| "float_sign NegInf = - 1"
| "float_sign NaN = 0"

fun float_mul :: "pyfloat \<Rightarrow> pyfloat \<Rightarrow> pyfloat" where
  "float_mul NaN y = NaN"
| "float_mul x NaN = NaN"
| "float_mul (Finite m1 e1) (Finite m2 e2) = round_to_double (m1 * m2) (e1 + e2)"
| "float_mul x y =
     (if float_sign x * float_sign y = 0 then NaN else infinity (float_sign x * float_sign y))"

fun cpython_mul :: "pynum \<Rightarrow> pynum \<Rightarrow> exn + pynum" where
  "cpython_mul (PyInt a) (PyInt b) = Inr (PyInt (a * b))"
| "cpython_mul (PyInt a) (PyFloat y) =
     (case float_of_int a of Inl e \<Rightarrow> Inl e | Inr x \<Rightarrow> Inr (PyFloat (float_mul x y)))"
| "cpython_mul (PyFloat x) (PyInt b) =
     (case float_of_int b of Inl e \<Rightarrow> Inl e | Inr y \<Rightarrow> Inr (PyFloat (float_mul x y)))"
| "cpython_mul (PyFloat x) (PyFloat y) = Inr (PyFloat (float_mul x y))"

text \<open>The whole number next to \<open>m * 2 ^ e\<close>, away from zero.\<close>

definition round_away :: "int \<Rightarrow> int \<Rightarrow> int" where
  "round_away m e =
     (if 0 \<le> e then m * 2 ^ nat e
      else sgn m * ((\<bar>m\<bar> + 2 ^ nat (- e) - 1) div 2 ^ nat (- e)))"

text \<open>
  \<open>time.sleep\<close> turns its argument into a number of nanoseconds that has to fit 64 bits
  (\<open>OverflowError\<close> otherwise; a float is multiplied by \<open>1e9\<close> and rounded away from
  zero), and then refuses a negative one (\<open>ValueError\<close>); not-a-number is refused at
  once (\<open>ValueError\<close>).
\<close>

definition nanoseconds_ok :: "int \<Rightarrow> exn option" where
  "nanoseconds_ok ns =
     (if ns < - (2 ^ 63) \<or> 2 ^ 63 \<le> ns then Some OverflowError
      else if ns < 0 then Some ValueError
      else None)"

fun cpython_sleep :: "pynum \<Rightarrow> exn option" where
  "cpython_sleep (PyInt n) = nanoseconds_ok (n * 10 ^ 9)"
| "cpython_sleep (PyFloat NaN) = Some ValueError"
| "cpython_sleep (PyFloat PosInf) = Some OverflowError"
| "cpython_sleep (PyFloat NegInf) = Some OverflowError"
| "cpython_sleep (PyFloat (Finite m e)) =
     (case round_to_double (m * 10 ^ 9) e of
        Finite m' e' \<Rightarrow> nanoseconds_ok (round_away m' e')
      | _ \<Rightarrow> Some OverflowError)"

definition cpython :: runtime where
  "cpython = \<lparr>py_mul = cpython_mul, time_sleep = cpython_sleep\<rparr>"

text \<open>The float \<open>2.0\<close>, and the double next to \<open>0.7\<close>, which is what \<open>0.7\<close> denotes.\<close>

definition float_2 :: pynum where
  "float_2 = PyFloat (Finite 2 0)"

definition float_0_7 :: pynum where
  "float_0_7 = PyFloat (Finite 3152519739159347 (- 52))"

subsection \<open>Page sources\<close>

text \<open>
  A client that never fails and serves page \<open>k\<close> as the answer to its call number
  \<open>k\<close> (counted from 0), whatever is asked.
\<close>

definition page_source :: "(nat \<Rightarrow> json) \<Rightarrow> client" where
  "page_source pages reqs req = Inr (pages (length reqs))"

text \<open>
  What \<open>paginate\<close> reads from a response: whether it carries a truthy \<open>next\<close>, and
  the list under \<open>items\<close> (nothing when there is no such key). A page is well formed when
  it is a dictionary whose \<open>items\<close>, if present, is a list.
\<close>

definition has_next :: "json \<Rightarrow> bool" where
  "has_next p = (case py_get p ''next'' JNull of Inr v \<Rightarrow> truthy v | Inl e \<Rightarrow> False)"

definition page_items :: "json \<Rightarrow> json list" where
  "page_items p =
     (case p of
        JDict d \<Rightarrow> (case map_of d ''items'' of Some (JList xs) \<Rightarrow> xs | _ \<Rightarrow> [])
      | _ \<Rightarrow> [])"

definition well_formed_page :: "json \<Rightarrow> bool" where
  "well_formed_page p =
     (case p of
        JDict d \<Rightarrow> (case map_of d ''items'' of Some v \<Rightarrow> is_list v | None \<Rightarrow> True)
      | _ \<Rightarrow> False)"

text \<open>
  The keyword arguments of the initial call.
\<close>

definition with_default_limit :: "(string \<times> json) list \<Rightarrow> (string \<times> json) list" where
  "with_default_limit kwargs =
     (if ''limit'' \<in> fst ` set kwargs then kwargs else kwargs @ [(''limit'', JInt 50)])"

text \<open>
  The pages of section 8 of the specification: items \<open>[a, b]\<close> with a next link, then
  items \<open>[c]\<close> without one; a page without an \<open>items\<close> key; an empty page that
  still announces a next one; and the source that serves one and the same page for ever.
\<close>

definition demo_page1 :: json where
  "demo_page1 = JDict [(''items'', JList [JStr ''a'', JStr ''b'']), (''next'', JStr ''offset=2'')]"

definition demo_page2 :: json where
  "demo_page2 = JDict [(''items'', JList [JStr ''c'']), (''next'', JNull)]"

definition demo_pages :: "nat \<Rightarrow> json" where
  "demo_pages k = (if k = 0 then demo_page1 else demo_page2)"

definition no_items_page :: json where
  "no_items_page = JDict [(''total'', JInt 0)]"

definition empty_page_with_next :: json where
  "empty_page_with_next = JDict [(''items'', JList []), (''next'', JStr ''offset=50'')]"

definition always :: "json \<Rightarrow> nat \<Rightarrow> json" where
  "always p k = p"

text \<open>
  A client that is rate limited on its first call and serves the same response from then
  on; the response has the shape of both kinds of endpoint.
\<close>

definition rate_limited_once :: client where
  "rate_limited_once reqs req =
     (if reqs = [] then Inl (SpotifyException 429 (Some []))
      else Inr (JDict [(''artists'', JDict [(''items'', JList [JDict [(''id'', JStr ''a1'')]]),
                                            (''next'', JNull)]),
                       (''items'', JList [JStr ''t1'']),
                       (''next'', JNull)]))"

subsection \<open>Pages of followed artists\<close>

text \<open>The value of field \<open>f\<close> in an item.\<close>

definition item_field :: "string \<Rightarrow> json \<Rightarrow> json option" where
  "item_field f item = (case item of JDict d \<Rightarrow> map_of d f | _ \<Rightarrow> None)"

text \<open>
  A page of followed artists is a dictionary; its \<open>artists\<close> entry, if there is one, is
  a dictionary, and the \<open>items\<close> entry of that, if there is one, is a list. The items
  of the page are the members of that list; the page announces more when it has a truthy
  \<open>artists.next\<close>.
\<close>

definition well_formed_artists_page :: "json \<Rightarrow> bool" where
  "well_formed_artists_page p =
     (case p of
        JDict d \<Rightarrow>
          (case map_of d ''artists'' of
             None \<Rightarrow> True
           | Some (JDict a) \<Rightarrow>
               (case map_of a ''items'' of None \<Rightarrow> True | Some (JList xs) \<Rightarrow> True | Some _ \<Rightarrow> False)
           | Some _ \<Rightarrow> False)
      | _ \<Rightarrow> False)"

definition cursor_items :: "json \<Rightarrow> json list" where
  "cursor_items p =
     (case p of
        JDict d \<Rightarrow>
          (case map_of d ''artists'' of
             Some (JDict a) \<Rightarrow> (case map_of a ''items'' of Some (JList xs) \<Rightarrow> xs | _ \<Rightarrow> [])
           | _ \<Rightarrow> [])
      | _ \<Rightarrow> [])"

definition cursor_more :: "json \<Rightarrow> bool" where
  "cursor_more p =
     (case p of
        JDict d \<Rightarrow>
          (case map_of d ''artists'' of
             Some (JDict a) \<Rightarrow> (case map_of a ''next'' of Some v \<Rightarrow> truthy v | None \<Rightarrow> False)
           | _ \<Rightarrow> False)
      | _ \<Rightarrow> False)"

definition artists_page :: "json list \<Rightarrow> json \<Rightarrow> json" where
  "artists_page items nxt = JDict [(''artists'', JDict [(''items'', JList items), (''next'', nxt)])]"

definition artist :: "string \<Rightarrow> json" where
  "artist i = JDict [(''id'', JStr i), (''type'', JStr ''artist'')]"

definition demo_artists :: "nat \<Rightarrow> json" where
  "demo_artists k =
     (if k = 0 then artists_page [artist ''x'', artist ''y''] (JStr ''after=y'')
      else artists_page [artist ''z''] JNull)"

definition demo_after :: "nat \<Rightarrow> json" where
  "demo_after k = (if k = 0 then JNull else JStr ''y'')"

subsection \<open>Export records\<close>

fun is_dict :: "json \<Rightarrow> bool" where
  "is_dict (JDict d) = True"
| "is_dict _ = False"

text \<open>
  Whether an item is a dictionary with one of the identifier fields; whether an item is a dictionary whose value under \<open>f\<close>, if any, is
  hashable; whether the value of a new item under \<open>f\<close> occurs among the values of the
  existing items under \<open>f\<close>.
\<close>

definition has_id_field :: "json \<Rightarrow> bool" where
  "has_id_field item =
     (case item of JDict d \<Rightarrow> list_ex (\<lambda>field. field \<in> fst ` set d) id_fields | _ \<Rightarrow> False)"

definition keyed_item :: "string \<Rightarrow> json \<Rightarrow> bool" where
  "keyed_item f item =
     (case item of
        JDict d \<Rightarrow> (case map_of d f of Some v \<Rightarrow> hashable v | None \<Rightarrow> True)
      | _ \<Rightarrow> False)"

definition collides :: "string \<Rightarrow> json list \<Rightarrow> json \<Rightarrow> bool" where
  "collides f es item =
     (case item_field f item of
        Some v \<Rightarrow> list_ex (\<lambda>e. case item_field f e of Some w \<Rightarrow> py_eq v w | None \<Rightarrow> False) es
      | None \<Rightarrow> False)"

text \<open>
  The \<open>metadata\<close> of a record, when it has one, is a mapping.
\<close>

definition metadata_is_mapping :: "(string \<times> json) list \<Rightarrow> bool" where
  "metadata_is_mapping r = (case map_of r ''metadata'' of Some v \<Rightarrow> is_dict v | None \<Rightarrow> True)"

text \<open>
  A record as \<open>save_to_json\<close> writes it.
\<close>

definition export_record :: "string \<Rightarrow> json \<Rightarrow> (string \<times> json) list" where
  "export_record date d =
     [(''metadata'', JDict [(''export_date'', JStr date), (''export_type'', JStr ''LibraryExporter'')]),
      (''data'', d)]"

definition spec_existing :: "(string \<times> json) list" where
  "spec_existing =
     export_record ''2024-01-01T09:00:00''
       (JList [JDict [(''id'', JInt 1), (''v'', JStr ''a'')]])"

definition spec_new :: "(string \<times> json) list" where
  "spec_new =
     export_record ''2024-02-01T09:00:00''
       (JList [JDict [(''id'', JInt 1), (''v'', JStr ''b'')],
               JDict [(''id'', JInt 2), (''v'', JStr ''c'')],
               JDict [(''v'', JStr ''d'')]])"

definition mixed_existing :: "(string \<times> json) list" where
  "mixed_existing =
     export_record ''2024-01-01T09:00:00''
       (JList [JDict [(''uri'', JStr ''u1'')], JDict [(''id'', JInt 1)]])"

definition mixed_new :: "(string \<times> json) list" where
  "mixed_new =
     export_record ''2024-02-01T09:00:00''
       (JList [JDict [(''id'', JInt 1), (''uri'', JStr ''u2'')]])"

definition list_id_existing :: "(string \<times> json) list" where
  "list_id_existing =
     export_record ''2024-01-01T09:00:00'' (JList [JDict [(''id'', JList [JInt 1])]])"

definition plain_existing :: "(string \<times> json) list" where
  "plain_existing =
     export_record ''2024-01-01T09:00:00''
       (JList [JDict [(''name'', JStr ''a'')], JStr ''id''])"

definition plain_new :: "(string \<times> json) list" where
  "plain_new =
     export_record ''2024-02-01T09:00:00''
       (JList [JDict [(''name'', JStr ''a'')], JDict [(''id'', JInt 7)]])"

definition profile_existing :: "(string \<times> json) list" where
  "profile_existing =
     export_record ''2024-01-01T09:00:00'' (JDict [(''display_name'', JStr ''old'')])"

subsection \<open>Records on the heap\<close>

text \<open>
  The record that an address denotes in a world: the keys of the record object with the
  contents of the objects they refer to; none when the address holds no record or a
  reference leads nowhere.
\<close>

fun contents_of :: "world \<Rightarrow> (string \<times> nat) list \<Rightarrow> (string \<times> json) list option" where
  "contents_of w [] = Some []"
| "contents_of w ((k, r) # refs) =
     (case content_at w r of
        None \<Rightarrow> None
      | Some v \<Rightarrow>
          (case contents_of w refs of
             None \<Rightarrow> None
           | Some rest \<Rightarrow> Some ((k, v) # rest)))"

definition record_at :: "world \<Rightarrow> nat \<Rightarrow> (string \<times> json) list option" where
  "record_at w a = (case fields_at w a of None \<Rightarrow> None | Some refs \<Rightarrow> contents_of w refs)"

text \<open>
  What a run of the merge gives: the exception raised, or the record that the address
  returned denotes in the world the run leaves.
\<close>

definition outcome :: "(exn + nat) \<times> world \<Rightarrow> (exn + (string \<times> json) list) option" where
  "outcome run =
     (case run of
        (Inl e, w) \<Rightarrow> Some (Inl e)
      | (Inr a, w) \<Rightarrow> map_option Inr (record_at w a))"

text \<open>
  A world is preserved by a run when the files are as they were and every object that
  existed before is still there, unchanged: the run has only added objects.
\<close>

definition preserved :: "world \<Rightarrow> world \<Rightarrow> bool" where
  "preserved w w' \<longleftrightarrow> files w' = files w \<and> prefix (heap w) (heap w')"

text \<open>
  An Export Record: \<open>metadata\<close> with an \<open>export_date\<close> and an \<open>export_type\<close>, and
  \<open>data\<close>.
\<close>

definition is_export_record :: "(string \<times> json) list \<Rightarrow> bool" where
  "is_export_record r =
     (case (map_of r ''metadata'', map_of r ''data'') of
        (Some (JDict m), Some d) \<Rightarrow>
          (case (map_of m ''export_date'', map_of m ''export_type'') of
             (Some (JStr date), Some (JStr type)) \<Rightarrow> True
           | _ \<Rightarrow> False)
      | _ \<Rightarrow> False)"

text \<open>
  A world with one export file on disk and the two records of section 8 of the
  specification in memory, at the addresses 2 and 5.
\<close>

definition demo_world :: world where
  "demo_world =
     \<lparr>heap =
        [ValueObj (JDict [(''export_date'', JStr ''2024-01-01T09:00:00''),
                          (''export_type'', JStr ''LibraryExporter'')]),
         ValueObj (JList [JDict [(''id'', JInt 1), (''v'', JStr ''a'')]]),
         RecordObj [(''metadata'', 0), (''data'', 1)],
         ValueObj (JDict [(''export_date'', JStr ''2024-02-01T09:00:00''),
                          (''export_type'', JStr ''LibraryExporter'')]),
         ValueObj (JList [JDict [(''id'', JInt 1), (''v'', JStr ''b'')],
                          JDict [(''id'', JInt 2), (''v'', JStr ''c'')],
                          JDict [(''v'', JStr ''d'')]]),
         RecordObj [(''metadata'', 3), (''data'', 4)]],
      files = [(''exports/library.json'', ''{}'')]\<rparr>"

section \<open>Properties of the retry executor\<close>

lemma retry_unfold:
  "retry_on_api_error rt func max_retries delay bf ros s =
     retry_loop rt func max_retries bf (statuses_or_default ros) 0 (PyInt delay) s []"
  by (simp add: retry_on_api_error_def statuses_or_default_def default_retry_on_status_def
      split: option.splits)





lemma retryable_cases:
  "retryable statuses out \<Longrightarrow> \<exists>st hs. out = Inl (SpotifyException st hs) \<and> st \<in> set statuses"
  by (auto simp: retryable_def split: sum.splits exn.splits)

lemma not_retryable: "\<not> retryable S out \<Longrightarrow> fatal S out \<or> (\<exists>v. out = Inr v)"
  by (auto simp: retryable_def fatal_def split: sum.splits exn.splits)

text \<open>One round of the loop on a retryable outcome with attempts left.\<close>

lemma retry_loop_step:
  assumes "attempt + 1 < max_retries" "retryable statuses (script k)"
    "retry_after_of (out_headers (script k)) cur = Inr w" "time_sleep rt w = None"
    "py_mul rt cur bf = Inr cur'"
  shows "retry_loop rt (scripted script) max_retries bf statuses attempt cur k slept =
         retry_loop rt (scripted script) max_retries bf statuses (attempt + 1) cur' (Suc k)
           (slept @ [w])"
proof -
  from assms(2) obtain st hs where o: "script k = Inl (SpotifyException st hs)" "st \<in> set statuses"
    using retryable_cases by blast
  show ?thesis
    using assms(1,3,4,5) o
    by (subst retry_loop.simps) (simp add: scripted_def out_headers_def)
qed

lemma retry_loop_failures:
  assumes "\<forall>i<n. retryable statuses (script (k + i)) \<and>
             retry_after_of (out_headers (script (k + i))) (cur i) = Inr (waits i) \<and>
             time_sleep rt (waits i) = None \<and>
             py_mul rt (cur i) bf = Inr (cur (Suc i))"
    and "attempt + int n < max_retries"
  shows "retry_loop rt (scripted script) max_retries bf statuses attempt (cur 0) k slept =
         retry_loop rt (scripted script) max_retries bf statuses (attempt + int n) (cur n) (k + n)
           (slept @ map waits [0..<n])"
  using assms
proof (induction n)
  case 0
  then show ?case by simp
next
  case (Suc n)
  have "retry_loop rt (scripted script) max_retries bf statuses attempt (cur 0) k slept =
         retry_loop rt (scripted script) max_retries bf statuses (attempt + int n) (cur n) (k + n)
           (slept @ map waits [0..<n])"
    using Suc by simp
  also have "\<dots> = retry_loop rt (scripted script) max_retries bf statuses (attempt + int n + 1)
           (cur (Suc n)) (Suc (k + n)) ((slept @ map waits [0..<n]) @ [waits n])"
    using Suc.prems by (intro retry_loop_step) auto
  finally show ?case by (simp add: algebra_simps)
qed

lemma retry_loop_success:
  assumes "attempt < max_retries" "script k = Inr v"
  shows "retry_loop rt (scripted script) max_retries bf statuses attempt cur k slept =
         (Inr (Some v), Suc k, slept)"
  using assms by (subst retry_loop.simps) (simp add: scripted_def)

lemma retry_loop_fatal:
  assumes "attempt < max_retries" "fatal statuses (script k)" "script k = Inl e"
  shows "retry_loop rt (scripted script) max_retries bf statuses attempt cur k slept =
         (Inl e, Suc k, slept)"
  using assms by (subst retry_loop.simps) (auto simp: scripted_def fatal_def split: exn.splits)

lemma retry_loop_last:
  assumes "attempt < max_retries" "attempt + 1 \<ge> max_retries" "retryable statuses (script k)"
    "script k = Inl e"
  shows "retry_loop rt (scripted script) max_retries bf statuses attempt cur k slept =
         (Inl e, Suc k, slept)"
  using assms by (subst retry_loop.simps) (auto simp: scripted_def retryable_def split: exn.splits)

lemma retry_loop_none:
  assumes "\<not> attempt < max_retries"
  shows "retry_loop rt func max_retries bf statuses attempt cur s slept = (Inr None, s, slept)"
  using assms by (subst retry_loop.simps) simp

text \<open>After \<open>k\<close> retryable outcomes, with attempts left, the loop is in its round \<open>k\<close>.\<close>

lemma retry_run_prefix:
  assumes "int k < max_retries" "cur 0 = PyInt delay"
    "\<forall>i<k. retryable (statuses_or_default ros) (script i) \<and>
       retry_after_of (out_headers (script i)) (cur i) = Inr (waits i) \<and>
       time_sleep rt (waits i) = None \<and>
       py_mul rt (cur i) bf = Inr (cur (Suc i))"
  shows "retry_on_api_error rt (scripted script) max_retries delay bf ros 0 =
         retry_loop rt (scripted script) max_retries bf (statuses_or_default ros) (int k)
           (cur k) k (map waits [0..<k])"
proof -
  let ?S = "statuses_or_default ros"
  have fl: "\<forall>i<k. retryable ?S (script (0 + i)) \<and>
       retry_after_of (out_headers (script (0 + i))) (cur i) = Inr (waits i) \<and>
       time_sleep rt (waits i) = None \<and>
       py_mul rt (cur i) bf = Inr (cur (Suc i))"
    using assms(3) by simp
  have "retry_loop rt (scripted script) max_retries bf ?S 0 (cur 0) 0 [] =
        retry_loop rt (scripted script) max_retries bf ?S (0 + int k) (cur k) (0 + k)
          ([] @ map waits [0..<k])"
    using fl assms(1) by (intro retry_loop_failures) auto
  then show ?thesis
    unfolding retry_unfold using assms(2) by simp
qed

text \<open>The wait of round \<open>i\<close> of an undisturbed run, as the source computes it.\<close>

lemma undisturbed_rounds:
  assumes "undisturbed rt script (statuses_or_default ros) max_retries delay bf cur"
    and "int k < max_retries" "retries_until (statuses_or_default ros) script k"
  shows "\<exists>waits. retry_on_api_error rt (scripted script) max_retries delay bf ros 0 =
           retry_loop rt (scripted script) max_retries bf (statuses_or_default ros) (int k)
             (cur k) k (map waits [0..<k])"
proof -
  let ?S = "statuses_or_default ros"
  define waits where
    "waits i = (case retry_after_of (out_headers (script i)) (cur i) of Inr w \<Rightarrow> w | Inl e \<Rightarrow> PyInt 0)"
    for i
  have c0: "cur 0 = PyInt delay"
    using assms(1) by (simp add: undisturbed_def)
  have rounds: "retryable ?S (script i) \<and>
       retry_after_of (out_headers (script i)) (cur i) = Inr (waits i) \<and>
       time_sleep rt (waits i) = None \<and>
       py_mul rt (cur i) bf = Inr (cur (Suc i))" if "i < k" for i
  proof -
    from that assms(2) have a: "int i + 1 < max_retries" by simp
    from that assms(3) have b: "retries_until ?S script (Suc i)" and r: "retryable ?S (script i)"
      by (simp_all add: retries_until_def)
    from assms(1) a b have
      "(\<exists>w. retry_after_of (out_headers (script i)) (cur i) = Inr w \<and> time_sleep rt w = None) \<and>
       py_mul rt (cur i) bf = Inr (cur (Suc i))"
      unfolding undisturbed_def by blast
    then obtain w where w: "retry_after_of (out_headers (script i)) (cur i) = Inr w"
        "time_sleep rt w = None" and m: "py_mul rt (cur i) bf = Inr (cur (Suc i))"
      by blast
    from w(1) have "waits i = w" by (simp add: waits_def)
    with w m r show ?thesis by simp
  qed
  have "retry_on_api_error rt (scripted script) max_retries delay bf ros 0 =
           retry_loop rt (scripted script) max_retries bf ?S (int k) (cur k) k (map waits [0..<k])"
    using assms(2) c0 rounds by (intro retry_run_prefix) auto
  then show ?thesis by blast
qed

lemmas interpreter_eval =
  cpython_def round_to_double_def float_of_int_def infinity_def round_away_def nanoseconds_ok_def
  bit_length.simps float_2_def float_0_7_def Let_def

lemmas retry_eval =
  retry_on_api_error_def retry_loop.simps scripted_def flaky_def hinted_def fatal_second_def
  broken_first_def default_retry_on_status_def retry_after_of_def retry_after_hint_def
  float_trunc_def interpreter_eval




text \<open>
  C2, as the code has it. Let \<open>max_retries\<close> be at least 1, and let the run be
  undisturbed: in every round that is followed by a retry, the conversion of the delay,
  \<open>time.sleep\<close> and the multiplication by the backoff factor raise nothing. (a) If
  invocation \<open>k\<close>, after \<open>k\<close> retryable outcomes and within the first
  \<open>max_retries\<close> invocations, raises an API error with a status outside the retryable
  set or any other exception, that exception is propagated after exactly \<open>k + 1\<close>
  invocations and the \<open>k\<close> delays of the retries before it, none after it. (b) If the
  first \<open>max_retries\<close> invocations all have a retryable outcome, the last of these API
  errors is propagated after exactly \<open>max_retries\<close> invocations and
  \<open>max_retries - 1\<close> delays. (c) If invocation \<open>k\<close> returns \<open>v\<close> after \<open>k\<close>
  retryable outcomes, \<open>v\<close> is returned. A failure is propagated if and only if (a) or
  (b) is the case.
\<close>

theorem retry_failure_iff:
  fixes script :: "nat \<Rightarrow> exn + 'a"
  assumes "1 \<le> max_retries"
    and "undisturbed rt script (statuses_or_default retry_on_status) max_retries delay
           backoff_factor cur"
  shows
    "(\<forall>k e. int k < max_retries \<and> retries_until (statuses_or_default retry_on_status) script k \<and>
            script k = Inl e \<and> fatal (statuses_or_default retry_on_status) (script k) \<longrightarrow>
        (\<exists>delays. retry_on_api_error rt (scripted script) max_retries delay backoff_factor
                     retry_on_status 0 = (Inl e, Suc k, delays) \<and> length delays = k)) \<and>
     (\<forall>e. retries_until (statuses_or_default retry_on_status) script (nat max_retries) \<and>
          script (nat max_retries - 1) = Inl e \<longrightarrow>
        (\<exists>delays. retry_on_api_error rt (scripted script) max_retries delay backoff_factor
                     retry_on_status 0 = (Inl e, nat max_retries, delays) \<and>
                   length delays = nat max_retries - 1)) \<and>
     (\<forall>k v. int k < max_retries \<and> retries_until (statuses_or_default retry_on_status) script k \<and>
            script k = Inr v \<longrightarrow>
        (\<exists>delays. retry_on_api_error rt (scripted script) max_retries delay backoff_factor
                     retry_on_status 0 = (Inr (Some v), Suc k, delays) \<and> length delays = k)) \<and>
     ((\<exists>e. fst (retry_on_api_error rt (scripted script) max_retries delay backoff_factor
                  retry_on_status 0) = Inl e) \<longleftrightarrow>
        (\<exists>k. int k < max_retries \<and> retries_until (statuses_or_default retry_on_status) script k \<and>
             fatal (statuses_or_default retry_on_status) (script k)) \<or>
        retries_until (statuses_or_default retry_on_status) script (nat max_retries))"
proof -
  let ?S = "statuses_or_default retry_on_status"
  let ?r = "retry_on_api_error rt (scripted script) max_retries delay backoff_factor retry_on_status 0"
  have A: "\<exists>delays. ?r = (Inl e, Suc k, delays) \<and> length delays = k"
    if "int k < max_retries" "retries_until ?S script k" "script k = Inl e" "fatal ?S (script k)"
    for k e
  proof -
    from undisturbed_rounds [OF assms(2) that(1,2)] obtain waits where
      "?r = retry_loop rt (scripted script) max_retries backoff_factor ?S (int k) (cur k) k
              (map waits [0..<k])" ..
    also have "\<dots> = (Inl e, Suc k, map waits [0..<k])"
      using that(1,4,3) by (rule retry_loop_fatal)
    finally show ?thesis by simp
  qed
  have B: "\<exists>delays. ?r = (Inl e, nat max_retries, delays) \<and> length delays = nat max_retries - 1"
    if "retries_until ?S script (nat max_retries)" "script (nat max_retries - 1) = Inl e" for e
  proof -
    let ?k = "nat max_retries - 1"
    have k: "int ?k < max_retries" "int ?k + 1 \<ge> max_retries" "Suc ?k = nat max_retries"
      using assms(1) by auto
    have ru: "retries_until ?S script ?k" and la: "retryable ?S (script ?k)"
      using that(1) assms(1) by (auto simp: retries_until_def)
    from undisturbed_rounds [OF assms(2) k(1) ru] obtain waits where
      "?r = retry_loop rt (scripted script) max_retries backoff_factor ?S (int ?k) (cur ?k) ?k
              (map waits [0..<?k])" ..
    also have "\<dots> = (Inl e, Suc ?k, map waits [0..<?k])"
      using k(1,2) la that(2) by (rule retry_loop_last)
    finally show ?thesis using k(3) by simp
  qed
  have C: "\<exists>delays. ?r = (Inr (Some v), Suc k, delays) \<and> length delays = k"
    if "int k < max_retries" "retries_until ?S script k" "script k = Inr v" for k v
  proof -
    from undisturbed_rounds [OF assms(2) that(1,2)] obtain waits where
      "?r = retry_loop rt (scripted script) max_retries backoff_factor ?S (int k) (cur k) k
              (map waits [0..<k])" ..
    also have "\<dots> = (Inr (Some v), Suc k, map waits [0..<k])"
      using that(1,3) by (rule retry_loop_success)
    finally show ?thesis by simp
  qed
  have D: "(\<exists>e. fst ?r = Inl e) \<longleftrightarrow>
        (\<exists>k. int k < max_retries \<and> retries_until ?S script k \<and> fatal ?S (script k)) \<or>
        retries_until ?S script (nat max_retries)"
  proof
    assume f: "\<exists>e. fst ?r = Inl e"
    show "(\<exists>k. int k < max_retries \<and> retries_until ?S script k \<and> fatal ?S (script k)) \<or>
        retries_until ?S script (nat max_retries)"
    proof (cases "retries_until ?S script (nat max_retries)")
      case True
      then show ?thesis by simp
    next
      case False
      then have "\<exists>i. i < nat max_retries \<and> \<not> retryable ?S (script i)"
        by (auto simp: retries_until_def)
      then obtain k where k: "k < nat max_retries" "\<not> retryable ?S (script k)"
        "\<forall>i<k. \<not> (i < nat max_retries \<and> \<not> retryable ?S (script i))"
        using exists_least_iff [of "\<lambda>i. i < nat max_retries \<and> \<not> retryable ?S (script i)"] by auto
      then have ru: "retries_until ?S script k" "int k < max_retries"
        by (auto simp: retries_until_def)
      from k(2) have "fatal ?S (script k) \<or> (\<exists>v. script k = Inr v)"
        by (rule not_retryable)
      then show ?thesis
      proof
        assume "fatal ?S (script k)"
        with ru show ?thesis by blast
      next
        assume "\<exists>v. script k = Inr v"
        then obtain v where "script k = Inr v" ..
        with C ru obtain delays where "?r = (Inr (Some v), Suc k, delays)" by blast
        with f show ?thesis by simp
      qed
    qed
  next
    assume "(\<exists>k. int k < max_retries \<and> retries_until ?S script k \<and> fatal ?S (script k)) \<or>
        retries_until ?S script (nat max_retries)"
    then show "\<exists>e. fst ?r = Inl e"
    proof
      assume "\<exists>k. int k < max_retries \<and> retries_until ?S script k \<and> fatal ?S (script k)"
      then obtain k where k: "int k < max_retries" "retries_until ?S script k" "fatal ?S (script k)"
        by blast
      then obtain e where "script k = Inl e"
        by (auto simp: fatal_def split: sum.splits)
      with A k obtain delays where "?r = (Inl e, Suc k, delays)" by blast
      then show ?thesis by simp
    next
      assume ru: "retries_until ?S script (nat max_retries)"
      then have "retryable ?S (script (nat max_retries - 1))"
        using assms(1) by (auto simp: retries_until_def)
      then obtain e where "script (nat max_retries - 1) = Inl e"
        using retryable_cases by blast
      with B ru obtain delays where "?r = (Inl e, nat max_retries, delays)" by blast
      then show ?thesis by simp
    qed
  qed
  from A B C D show ?thesis by blast
qed

theorem retry_failure_iff_witness:
  "retry_on_api_error cpython (scripted fatal_second) 3 2 float_2 None 0 =
     (Inl (SpotifyException 404 None), 2, [PyInt 2]) \<and>
   retry_on_api_error cpython (scripted broken_first) 3 2 float_2 None 0 =
     (Inl (OtherException ''ConnectionError''), 1, []) \<and>
   retry_on_api_error cpython (scripted (flaky 3)) 3 2 float_2 None 0 =
     (Inl (SpotifyException 429 (Some [])), 3, [PyInt 2, PyInt 4]) \<and>
   retry_on_api_error cpython (scripted (flaky 2)) 3 2 float_2 None 0 =
     (Inr (Some ''page''), 3, [PyInt 2, PyInt 4])"
proof -
  let ?S = "statuses_or_default None"
  let ?cur = "\<lambda>i::nat. if i = 0 then PyInt 2 else if i = 1 then PyFloat (Finite 4 0)
                        else PyFloat (Finite 8 0)"
  have S: "?S = [429, 500, 502, 503, 504]"
    by (simp add: statuses_or_default_def)
  have p1: "(1::int) \<le> 3"
    by simp
  have m0: "py_mul cpython (PyInt 2) float_2 = Inr (PyFloat (Finite 4 0))"
    and m1: "py_mul cpython (PyFloat (Finite 4 0)) float_2 = Inr (PyFloat (Finite 8 0))"
    by (simp_all add: interpreter_eval)
  have s0: "time_sleep cpython (PyInt 2) = None" and s1: "time_sleep cpython (PyInt 4) = None"
    by (simp_all add: interpreter_eval)
  have w0: "retry_after_of None (PyInt 2) = Inr (PyInt 2)"
    and w1: "retry_after_of None (PyFloat (Finite 4 0)) = Inr (PyInt 4)"
    and w2: "retry_after_of (Some []) (PyInt 2) = Inr (PyInt 2)"
    and w3: "retry_after_of (Some []) (PyFloat (Finite 4 0)) = Inr (PyInt 4)"
    by (simp_all add: retry_after_of_def retry_after_hint_def float_trunc_def)
  have quiet: "undisturbed cpython script ?S 3 2 float_2 ?cur"
    if "\<forall>i<2. out_headers (script i) = None \<or> out_headers (script i) = Some []"
    for script :: "nat \<Rightarrow> exn + string"
    unfolding undisturbed_def
  proof (intro conjI allI impI)
    show "?cur 0 = PyInt 2" by simp
  next
    fix i :: nat
    assume "int i + 1 < 3 \<and> retries_until ?S script (Suc i)"
    then have i: "i = 0 \<or> i = 1" and "i < 2" by auto
    from that [rule_format, OF this(2)] i
    have "(i = 0 \<or> i = 1) \<and> (out_headers (script i) = None \<or> out_headers (script i) = Some [])"
      by simp
    then show "\<exists>w. retry_after_of (out_headers (script i)) (?cur i) = Inr w \<and>
                 time_sleep cpython w = None"
      using w0 w1 w2 w3 s0 s1 by auto
  next
    fix i :: nat
    assume "int i + 1 < 3 \<and> retries_until ?S script (Suc i)"
    then have "i = 0 \<or> i = 1" by auto
    then show "py_mul cpython (?cur i) float_2 = Inr (?cur (Suc i))"
      using m0 m1 by auto
  qed
  have hn1: "undisturbed cpython fatal_second ?S 3 2 float_2 ?cur"
    by (rule quiet) (simp add: out_headers_def fatal_second_def)
  have hn2: "undisturbed cpython broken_first ?S 3 2 float_2 ?cur"
    by (rule quiet) (simp add: out_headers_def broken_first_def)
  have hn3: "undisturbed cpython (flaky n) ?S 3 2 float_2 ?cur" for n
    by (rule quiet) (simp add: out_headers_def flaky_def)
  note T1 = retry_failure_iff [where script = fatal_second and retry_on_status = None, OF p1 hn1]
  note T2 = retry_failure_iff [where script = broken_first and retry_on_status = None, OF p1 hn2]
  note T3 = retry_failure_iff [where script = "flaky 3" and retry_on_status = None, OF p1 hn3]
  note T4 = retry_failure_iff [where script = "flaky 2" and retry_on_status = None, OF p1 hn3]
  have a1: "int 1 < 3 \<and> retries_until ?S fatal_second 1 \<and>
      fatal_second 1 = Inl (SpotifyException 404 None) \<and> fatal ?S (fatal_second 1)"
    by (simp add: S retries_until_def retryable_def fatal_def fatal_second_def)
  have a2: "int 0 < 3 \<and> retries_until ?S broken_first 0 \<and>
      broken_first 0 = Inl (OtherException ''ConnectionError'') \<and> fatal ?S (broken_first 0)"
    by (simp add: S retries_until_def retryable_def fatal_def broken_first_def)
  have a3: "retries_until ?S (flaky 3) (nat 3) \<and>
      flaky 3 (nat 3 - 1) = Inl (SpotifyException 429 (Some []))"
    by (simp add: S retries_until_def retryable_def flaky_def)
  have a4: "int 2 < 3 \<and> retries_until ?S (flaky 2) 2 \<and> flaky 2 2 = Inr ''page''"
    by (simp add: S retries_until_def retryable_def flaky_def)
  from T1 [THEN conjunct1, rule_format, OF a1]
  obtain d1 where d1: "retry_on_api_error cpython (scripted fatal_second) 3 2 float_2 None 0 =
     (Inl (SpotifyException 404 None), Suc 1, d1)" by blast
  from T2 [THEN conjunct1, rule_format, OF a2]
  obtain d2 where d2: "retry_on_api_error cpython (scripted broken_first) 3 2 float_2 None 0 =
     (Inl (OtherException ''ConnectionError''), Suc 0, d2)" by blast
  from T3 [THEN conjunct2, THEN conjunct1, rule_format, OF a3]
  obtain d3 where d3: "retry_on_api_error cpython (scripted (flaky 3)) 3 2 float_2 None 0 =
     (Inl (SpotifyException 429 (Some [])), nat 3, d3)" by blast
  from T4 [THEN conjunct2, THEN conjunct2, THEN conjunct1, rule_format, OF a4]
  obtain d4 where d4: "retry_on_api_error cpython (scripted (flaky 2)) 3 2 float_2 None 0 =
     (Inr (Some ''page''), Suc 2, d4)" by blast
  have e1: "snd (snd (retry_on_api_error cpython (scripted fatal_second) 3 2 float_2 None 0)) = [PyInt 2]"
    by (simp add: retry_eval)
  have e2: "snd (snd (retry_on_api_error cpython (scripted broken_first) 3 2 float_2 None 0)) = []"
    by (simp add: retry_eval)
  have e3: "snd (snd (retry_on_api_error cpython (scripted (flaky 3)) 3 2 float_2 None 0)) =
      [PyInt 2, PyInt 4]"
    by (simp add: retry_eval)
  have e4: "snd (snd (retry_on_api_error cpython (scripted (flaky 2)) 3 2 float_2 None 0)) =
      [PyInt 2, PyInt 4]"
    by (simp add: retry_eval)
  from d1 e1 have r1: "retry_on_api_error cpython (scripted fatal_second) 3 2 float_2 None 0 =
     (Inl (SpotifyException 404 None), 2, [PyInt 2])" by simp
  from d2 e2 have r2: "retry_on_api_error cpython (scripted broken_first) 3 2 float_2 None 0 =
     (Inl (OtherException ''ConnectionError''), 1, [])" by simp
  from d3 e3 have r3: "retry_on_api_error cpython (scripted (flaky 3)) 3 2 float_2 None 0 =
     (Inl (SpotifyException 429 (Some [])), 3, [PyInt 2, PyInt 4])" by simp
  from d4 e4 have r4: "retry_on_api_error cpython (scripted (flaky 2)) 3 2 float_2 None 0 =
     (Inr (Some ''page''), 3, [PyInt 2, PyInt 4])" by simp
  from r1 r2 r3 r4 show ?thesis by blast
qed

text \<open>
  C2 as stated fails where \<open>max_retries\<close> is 0: the thunk would return at once, yet
  nothing is invoked and \<open>None\<close> is returned, which is neither a propagated failure nor
  the value of a successful invocation. It also fails where the handler itself raises: on a
  hint of \<open>-30\<close> the failure that leaves the function is the \<open>ValueError\<close> of
  \<open>time.sleep\<close>, on a hint of \<open>10 ^ 30\<close> its \<open>OverflowError\<close>, each after one
  retryable outcome and with attempts left.
\<close>

theorem retry_failure_iff_counterexample:
  "retry_on_api_error cpython (scripted (flaky 0)) 0 2 float_2 None 0 = (Inr None, 0, []) \<and>
   flaky 0 0 = Inr ''page'' \<and>
   retry_on_api_error cpython (scripted (hinted (IntText (- 30)))) 3 2 float_2 None 0 =
     (Inl ValueError, 1, []) \<and>
   retry_on_api_error cpython (scripted (hinted (IntText (10 ^ 30)))) 3 2 float_2 None 0 =
     (Inl OverflowError, 1, [])"
  by (simp add: retry_eval)

text \<open>
  C10. With \<open>max_retries \<le> 0\<close> the function returns \<open>None\<close>; the thunk is not
  invoked (the world is as it was) and nothing is slept.
\<close>

theorem retry_zero_attempts:
  "max_retries \<le> 0 \<Longrightarrow>
   retry_on_api_error rt func max_retries delay backoff_factor retry_on_status s = (Inr None, s, [])"
  by (simp add: retry_unfold retry_loop_none)

theorem retry_zero_attempts_witness:
  "(0::int) \<le> 0 \<and>
   retry_on_api_error cpython (scripted (flaky 0)) 0 2 float_2 None 0 = (Inr None, 0, [])"
  using retry_zero_attempts [of 0 cpython "scripted (flaky 0)" 2 float_2 None 0] by simp

section \<open>Properties of offset pagination\<close>

lemma retry_invoke_ok:
  assumes "spotify reqs req = Inr r"
  shows "retry_on_api_error rt (invoke spotify req) API_RETRY_ATTEMPTS API_RETRY_DELAY
           default_backoff_factor None reqs =
           (Inr (Some r), reqs @ [req], [])"
  using assms
  by (simp add: retry_on_api_error_def retry_loop.simps [of rt "invoke spotify req"] invoke_def
      API_RETRY_ATTEMPTS_def)

lemma map_of_in_keys: "k \<in> fst ` set d \<longleftrightarrow> map_of d k \<noteq> None"
  by (simp add: map_of_eq_None_iff)

lemma collect_items_wf:
  assumes "well_formed_page p"
  shows "collect_items p results = Inr (results @ page_items p)"
  using assms
  by (cases p)
     (auto simp: well_formed_page_def collect_items_def page_items_def map_of_in_keys
        split: option.splits json.splits)

lemma next_wf:
  assumes "well_formed_page p"
  shows "\<exists>v. py_get p ''next'' JNull = Inr v \<and> truthy v = has_next p"
  using assms by (cases p) (auto simp: well_formed_page_def has_next_def)

lemma paginate_loop_stop:
  assumes "well_formed_page p" "\<not> has_next p"
  shows "paginate_loop rt spotify p results reqs slept = Some (Inr results, reqs, slept)"
proof -
  from next_wf [OF assms(1)] obtain v where "py_get p ''next'' JNull = Inr v" "truthy v = has_next p"
    by blast
  with assms(2) show ?thesis
    by (subst paginate_loop.simps) simp
qed

lemma paginate_loop_next:
  assumes "well_formed_page p" "has_next p" "spotify reqs (Next p) = Inr p'" "well_formed_page p'"
  shows "paginate_loop rt spotify p results reqs slept =
         paginate_loop rt spotify p' (results @ page_items p') (reqs @ [Next p]) slept"
proof -
  from next_wf [OF assms(1)] obtain v where "py_get p ''next'' JNull = Inr v" "truthy v = has_next p"
    by blast
  with assms(2-) show ?thesis
    by (subst paginate_loop.simps)
       (simp add: retry_invoke_ok response_of_def collect_items_wf)
qed

lemma paginate_loop_pages:
  assumes wf: "\<forall>j\<le>n. well_formed_page (pages j)"
    and nx: "\<forall>j<n. has_next (pages j)"
    and lst: "\<not> has_next (pages n)"
  shows "k \<le> n \<Longrightarrow> length reqs = Suc k \<Longrightarrow>
         paginate_loop rt (page_source pages) (pages k) results reqs slept =
           Some (Inr (results @ concat (map (\<lambda>j. page_items (pages j)) [Suc k..<Suc n])),
                 reqs @ map (\<lambda>j. Next (pages j)) [k..<n], slept)"
proof (induction "n - k" arbitrary: k results reqs)
  case 0
  then have "k = n" by simp
  with wf lst show ?case by (simp add: paginate_loop_stop)
next
  case (Suc d)
  then have kn: "k < n" by simp
  have src: "page_source pages reqs (Next (pages k)) = Inr (pages (Suc k))"
    using Suc.prems by (simp add: page_source_def)
  have "paginate_loop rt (page_source pages) (pages k) results reqs slept =
        paginate_loop rt (page_source pages) (pages (Suc k)) (results @ page_items (pages (Suc k)))
          (reqs @ [Next (pages k)]) slept"
    using wf nx kn src by (intro paginate_loop_next) auto
  also have "\<dots> = Some (Inr ((results @ page_items (pages (Suc k))) @
                 concat (map (\<lambda>j. page_items (pages j)) [Suc (Suc k)..<Suc n])),
                 (reqs @ [Next (pages k)]) @ map (\<lambda>j. Next (pages j)) [Suc k..<n], slept)"
    using Suc.hyps(2) Suc.prems kn by (intro Suc.hyps(1)) auto
  also have "[Suc k..<Suc n] = Suc k # [Suc (Suc k)..<Suc n]"
    using kn by (simp add: upt_conv_Cons)
  then have "(results @ page_items (pages (Suc k))) @
                 concat (map (\<lambda>j. page_items (pages j)) [Suc (Suc k)..<Suc n]) =
             results @ concat (map (\<lambda>j. page_items (pages j)) [Suc k..<Suc n])"
    by simp
  also have "(reqs @ [Next (pages k)]) @ map (\<lambda>j. Next (pages j)) [Suc k..<n] =
             reqs @ map (\<lambda>j. Next (pages j)) [k..<n]"
    using kn by (simp add: upt_conv_Cons)
  finally show ?case .
qed

lemma paginate_first:
  assumes "well_formed_page (pages 0)"
  shows "paginate rt (page_source pages) method args kwargs [] =
         paginate_loop rt (page_source pages) (pages 0) (page_items (pages 0))
           [Call method args (with_default_limit kwargs)] []"
proof -
  have "page_source pages [] req = Inr (pages 0)" for req
    by (simp add: page_source_def)
  then show ?thesis
    using assms
    by (simp add: paginate_def Let_def retry_invoke_ok response_of_def collect_items_wf
        with_default_limit_def DEFAULT_LIMIT_def)
qed

lemma paginate_pages:
  assumes wf: "\<forall>j\<le>n. well_formed_page (pages j)"
    and nx: "\<forall>j<n. has_next (pages j)"
    and lst: "\<not> has_next (pages n)"
  shows "paginate rt (page_source pages) method args kwargs [] =
           Some (Inr (concat (map (\<lambda>j. page_items (pages j)) [0..<Suc n])),
                 Call method args (with_default_limit kwargs) # map (\<lambda>j. Next (pages j)) [0..<n],
                 [])"
proof -
  have "paginate rt (page_source pages) method args kwargs [] =
         paginate_loop rt (page_source pages) (pages 0) (page_items (pages 0))
           [Call method args (with_default_limit kwargs)] []"
    using wf by (intro paginate_first) simp
  also have "\<dots> = Some (Inr (page_items (pages 0) @
                  concat (map (\<lambda>j. page_items (pages j)) [Suc 0..<Suc n])),
                 [Call method args (with_default_limit kwargs)] @ map (\<lambda>j. Next (pages j)) [0..<n],
                 [])"
    using wf nx lst by (intro paginate_loop_pages) auto
  also have "[0..<Suc n] = 0 # [Suc 0..<Suc n]"
    by (simp add: upt_conv_Cons)
  then have "page_items (pages 0) @ concat (map (\<lambda>j. page_items (pages j)) [Suc 0..<Suc n]) =
        concat (map (\<lambda>j. page_items (pages j)) [0..<Suc n])"
    by simp
  finally show ?thesis by simp
qed

lemma paginate_loop_endless:
  assumes "\<forall>j. well_formed_page (pages j) \<and> has_next (pages j)"
  shows "paginate_loop rt spotify response results reqs slept = Some y \<Longrightarrow>
         \<not> (spotify = page_source pages \<and> (\<exists>k. length reqs = Suc k \<and> response = pages k))"
proof (induction rule: paginate_loop.raw_induct [rotated 1, consumes 1, case_names step])
  case (step f rt spotify response results reqs slept y)
  show ?case
  proof
    assume "spotify = page_source pages \<and> (\<exists>k. length reqs = Suc k \<and> response = pages k)"
    then obtain k where sp: "spotify = page_source pages" and k: "length reqs = Suc k"
      and re: "response = pages k"
      by blast
    from assms have wf: "well_formed_page (pages k)" and hn: "has_next (pages k)"
      and wf': "well_formed_page (pages (Suc k))"
      by auto
    from next_wf [OF wf] hn obtain v where v: "py_get (pages k) ''next'' JNull = Inr v" "truthy v"
      by auto
    have src: "page_source pages reqs (Next (pages k)) = Inr (pages (Suc k))"
      using k by (simp add: page_source_def)
    have "f rt (page_source pages) (pages (Suc k)) (results @ page_items (pages (Suc k)))
         (reqs @ [Next (pages k)]) slept = Some y"
      using step(2) unfolding sp re
      by (simp add: v retry_invoke_ok [where spotify = "page_source pages", OF src]
          response_of_def collect_items_wf [OF wf'])
    from step(1) [OF this] k show False by simp
  qed
qed

lemma paginate_endless:
  assumes "\<forall>j. well_formed_page (pages j) \<and> has_next (pages j)"
  shows "paginate rt (page_source pages) method args kwargs [] = None"
proof (rule ccontr)
  assume "paginate rt (page_source pages) method args kwargs [] \<noteq> None"
  then obtain y where "paginate rt (page_source pages) method args kwargs [] = Some y"
    by auto
  moreover have "well_formed_page (pages 0)" using assms by simp
  ultimately have "paginate_loop rt (page_source pages) (pages 0) (page_items (pages 0))
           [Call method args (with_default_limit kwargs)] [] = Some y"
    by (simp add: paginate_first)
  from paginate_loop_endless [OF assms this] show False by simp
qed

lemmas paginate_eval =
  paginate_def paginate_loop.simps retry_on_api_error_def retry_loop.simps invoke_def
  response_of_def collect_items_def API_RETRY_ATTEMPTS_def API_RETRY_DELAY_def DEFAULT_LIMIT_def
  default_retry_on_status_def retry_after_of_def retry_after_hint_def float_trunc_def
  default_backoff_factor_def interpreter_eval

lemmas followed_eval =
  get_followed_artists_def followed_loop.simps invoke_def followed_request_def artists_get_def
  last_id_def

text \<open>
  C3. Against a client that serves well-formed pages \<open>0, \<dots>, n\<close> without failing,
  where every page before the last carries a truthy \<open>next\<close> and page \<open>n\<close> does
  not, \<open>paginate\<close> returns the concatenation of the \<open>items\<close> lists of these pages
  in the order served, a page without an \<open>items\<close> key contributing nothing and raising
  nothing. The requests made are the initial call, with \<open>limit = 50\<close> added to the
  keyword arguments unless the caller gave a \<open>limit\<close>, followed by one
  \<open>next(response)\<close> for each page that carries a \<open>next\<close>; nothing is slept.
\<close>

theorem paginate_concatenates_pages:
  assumes "\<forall>j\<le>n. well_formed_page (pages j)"
    and "\<forall>j<n. has_next (pages j)"
    and "\<not> has_next (pages n)"
  shows "paginate rt (page_source pages) method args kwargs [] =
           Some (Inr (concat (map (\<lambda>j. page_items (pages j)) [0..<Suc n])),
                 Call method args
                   (if ''limit'' \<in> fst ` set kwargs then kwargs
                    else kwargs @ [(''limit'', JInt 50)])
                 # map (\<lambda>j. Next (pages j)) [0..<n],
                 [])"
  using paginate_pages [OF assms] by (simp add: with_default_limit_def)

theorem paginate_concatenates_pages_witness:
  "well_formed_page (demo_pages 0) \<and> well_formed_page (demo_pages 1) \<and>
   has_next (demo_pages 0) \<and> \<not> has_next (demo_pages 1) \<and>
   paginate cpython (page_source demo_pages) ''current_user_saved_tracks'' [] [] [] =
     Some (Inr [JStr ''a'', JStr ''b'', JStr ''c''],
           [Call ''current_user_saved_tracks'' [] [(''limit'', JInt 50)], Next demo_page1], []) \<and>
   well_formed_page no_items_page \<and> \<not> has_next no_items_page \<and>
   paginate cpython (page_source (always no_items_page)) ''current_user_playlists'' []
       [(''limit'', JInt 20)] [] =
     Some (Inr [], [Call ''current_user_playlists'' [] [(''limit'', JInt 20)]], [])"
proof -
  have w: "well_formed_page (demo_pages 0)" "well_formed_page (demo_pages 1)"
    "has_next (demo_pages 0)" "\<not> has_next (demo_pages 1)"
    "well_formed_page no_items_page" "\<not> has_next no_items_page"
    by (simp_all add: well_formed_page_def has_next_def demo_pages_def demo_page1_def
        demo_page2_def no_items_page_def)
  have a1: "\<forall>j\<le>1. well_formed_page (demo_pages j)"
    using w(1,2) by (auto simp: le_Suc_eq)
  have a2: "\<forall>j<1. has_next (demo_pages j)"
    using w(3) by simp
  have u: "[0..<Suc 1] = [0, 1]" "[0..<1] = [0]" "[0..<Suc 0] = [0]"
    by (simp_all add: upt_rec)
  have r1: "paginate cpython (page_source demo_pages) ''current_user_saved_tracks'' [] [] [] =
     Some (Inr [JStr ''a'', JStr ''b'', JStr ''c''],
           [Call ''current_user_saved_tracks'' [] [(''limit'', JInt 50)], Next demo_page1], [])"
  proof -
    have m: "concat (map (\<lambda>j. page_items (demo_pages j)) [0, 1]) =
               [JStr ''a'', JStr ''b'', JStr ''c'']"
      by (simp add: page_items_def demo_pages_def demo_page1_def demo_page2_def)
    have nx: "map (\<lambda>j. Next (demo_pages j)) [0] = [Next demo_page1]"
      by (simp add: demo_pages_def)
    show ?thesis
      using paginate_concatenates_pages [OF a1 a2 w(4), of cpython "''current_user_saved_tracks''"
            "[]" "[]"]
      unfolding u m nx by simp
  qed
  have b1: "\<forall>j\<le>0::nat. well_formed_page (always no_items_page j)"
    using w(5) by (simp add: always_def)
  have b2: "\<forall>j<0::nat. has_next (always no_items_page j)"
    by simp
  have b3: "\<not> has_next (always no_items_page 0)"
    using w(6) by (simp add: always_def)
  have m2: "concat (map (\<lambda>j. page_items (always no_items_page j)) [0]) = []"
    by (simp add: always_def page_items_def no_items_page_def)
  have r2: "paginate cpython (page_source (always no_items_page)) ''current_user_playlists'' []
       [(''limit'', JInt 20)] [] =
     Some (Inr [], [Call ''current_user_playlists'' [] [(''limit'', JInt 20)]], [])"
    using paginate_concatenates_pages [of 0 "always no_items_page", OF b1 b2 b3,
        of cpython "''current_user_playlists''" "[]" "[(''limit'', JInt 20)]"]
    unfolding u m2 by simp
  from w r1 r2 show ?thesis by simp
qed

text \<open>
  C8, as the code has it. Against a client that serves well-formed pages without failing,
  \<open>paginate\<close> returns if and only if some page carries no truthy \<open>next\<close>. The loop
  has no guard on empty pages: no page is treated as a protocol error.
\<close>

theorem paginate_returns_iff:
  assumes "\<forall>j. well_formed_page (pages j)"
  shows "(\<exists>y. paginate rt (page_source pages) method args kwargs [] = Some y) \<longleftrightarrow>
         (\<exists>n. \<not> has_next (pages n))"
proof
  assume "\<exists>y. paginate rt (page_source pages) method args kwargs [] = Some y"
  then have ne: "paginate rt (page_source pages) method args kwargs [] \<noteq> None"
    by auto
  have "\<not> (\<forall>j. well_formed_page (pages j) \<and> has_next (pages j))"
  proof
    assume "\<forall>j. well_formed_page (pages j) \<and> has_next (pages j)"
    from paginate_endless [OF this, of rt "method" "args" "kwargs"] ne show False by simp
  qed
  with assms show "\<exists>n. \<not> has_next (pages n)"
    by simp
next
  assume "\<exists>n. \<not> has_next (pages n)"
  then obtain n where n: "\<not> has_next (pages n)" "\<forall>j<n. \<not> \<not> has_next (pages j)"
    using exists_least_iff [of "\<lambda>n. \<not> has_next (pages n)"] by auto
  have "\<forall>j\<le>n. well_formed_page (pages j)" "\<forall>j<n. has_next (pages j)"
    using assms n(2) by simp_all
  from paginate_pages [OF this n(1)]
  show "\<exists>y. paginate rt (page_source pages) method args kwargs [] = Some y"
    by simp
qed

theorem paginate_returns_iff_witness:
  "(\<exists>y. paginate cpython (page_source demo_pages) ''current_user_saved_albums'' [] [] [] = Some y) \<and>
   \<not> has_next (demo_pages 1) \<and>
   paginate cpython (page_source (always demo_page1)) ''current_user_saved_albums'' [] [] [] = None \<and>
   has_next demo_page1"
proof -
  have wf1: "\<forall>j. well_formed_page (demo_pages j)"
    by (simp add: well_formed_page_def demo_pages_def demo_page1_def demo_page2_def)
  have wf2: "\<forall>j. well_formed_page (always demo_page1 j)"
    by (simp add: always_def well_formed_page_def demo_page1_def)
  have n1: "\<not> has_next (demo_pages 1)"
    by (simp add: has_next_def demo_pages_def demo_page2_def)
  have n2: "has_next demo_page1"
    by (simp add: has_next_def demo_page1_def)
  from n1 have "\<exists>n. \<not> has_next (demo_pages n)" ..
  then have r1: "\<exists>y. paginate cpython (page_source demo_pages) ''current_user_saved_albums'' [] [] [] = Some y"
    using paginate_returns_iff [OF wf1, where rt = cpython] by simp
  have "\<not> (\<exists>n. \<not> has_next (always demo_page1 n))"
    using n2 by (simp add: always_def)
  then have "\<not> (\<exists>y. paginate cpython (page_source (always demo_page1)) ''current_user_saved_albums'' [] [] []
                     = Some y)"
    using paginate_returns_iff [OF wf2, where rt = cpython] by simp
  then have r2: "paginate cpython (page_source (always demo_page1)) ''current_user_saved_albums'' [] [] [] = None"
    by (simp only: not_ex not_Some_eq)
  from r1 n1 r2 n2 show ?thesis by simp
qed

text \<open>
  C8 as stated fails: against a source that answers every call with an empty \<open>items\<close>
  list and a truthy \<open>next\<close>, \<open>paginate\<close> never returns.
\<close>

theorem paginate_empty_pages_counterexample:
  "paginate cpython (page_source (always empty_page_with_next)) ''current_user_saved_tracks'' [] [] [] = None"
  by (rule paginate_endless)
     (simp add: always_def well_formed_page_def has_next_def empty_page_with_next_def)

text \<open>
  C7 holds of \<open>paginate\<close> and fails of \<open>get_followed_artists\<close>. Against a client
  that is rate limited (status 429) on its first call only, the cursor walk propagates the
  error after that one call, while \<open>paginate\<close> sleeps 2 seconds, repeats the call and
  returns the items.
\<close>

theorem followed_artists_not_retried:
  "get_followed_artists rate_limited_once [] =
     Some (Inl (SpotifyException 429 (Some [])),
           [Call ''current_user_followed_artists'' [] [(''limit'', JInt 50), (''after'', JNull)]]) \<and>
   paginate cpython rate_limited_once ''current_user_saved_tracks'' [] [] [] =
     Some (Inr [JStr ''t1''],
           [Call ''current_user_saved_tracks'' [] [(''limit'', JInt 50)],
            Call ''current_user_saved_tracks'' [] [(''limit'', JInt 50)]],
           [PyInt 2])"
  by (simp add: paginate_eval followed_eval rate_limited_once_def)


section \<open>Properties of the cursor walk\<close>

lemma artists_wf:
  assumes "well_formed_artists_page p"
  shows "artists_get p ''items'' (JList []) = Inr (JList (cursor_items p)) \<and>
         (\<exists>v. artists_get p ''next'' JNull = Inr v \<and> truthy v = cursor_more p)"
  using assms
  by (auto simp: well_formed_artists_page_def artists_get_def cursor_items_def cursor_more_def
      split: json.splits option.splits)

lemma last_id_item:
  assumes "xs \<noteq> []" "item_field ''id'' (last xs) = Some a"
  shows "last_id (JList xs) = Inr a"
  using assms by (auto simp: last_id_def item_field_def split: json.splits)

lemma followed_loop_stop:
  assumes "well_formed_artists_page p" "spotify reqs (followed_request after) = Inr p"
    "\<not> cursor_more p \<or> cursor_items p = []"
  shows "followed_loop spotify after artists reqs =
           Some (Inr (artists @ cursor_items p), reqs @ [followed_request after])"
proof -
  from artists_wf [OF assms(1)] obtain v where
    "artists_get p ''items'' (JList []) = Inr (JList (cursor_items p))"
    "artists_get p ''next'' JNull = Inr v" "truthy v = cursor_more p"
    by blast
  with assms(2,3) show ?thesis
    by (subst followed_loop.simps) (auto simp: invoke_def)
qed

lemma followed_loop_next:
  assumes "well_formed_artists_page p" "spotify reqs (followed_request after) = Inr p"
    "cursor_more p" "cursor_items p \<noteq> []" "last_id (JList (cursor_items p)) = Inr a"
  shows "followed_loop spotify after artists reqs =
           followed_loop spotify a (artists @ cursor_items p) (reqs @ [followed_request after])"
proof -
  from artists_wf [OF assms(1)] obtain v where
    "artists_get p ''items'' (JList []) = Inr (JList (cursor_items p))"
    "artists_get p ''next'' JNull = Inr v" "truthy v = cursor_more p"
    by blast
  with assms(2-) show ?thesis
    by (subst followed_loop.simps) (simp add: invoke_def)
qed

lemma followed_loop_pages:
  assumes wf: "\<forall>j\<le>n. well_formed_artists_page (pages j)"
    and nx: "\<forall>j<n. cursor_more (pages j) \<and> cursor_items (pages j) \<noteq> [] \<and>
                last_id (JList (cursor_items (pages j))) = Inr (after (Suc j))"
    and lst: "\<not> cursor_more (pages n) \<or> cursor_items (pages n) = []"
  shows "k \<le> n \<Longrightarrow> length reqs = k \<Longrightarrow>
         followed_loop (page_source pages) (after k) artists reqs =
           Some (Inr (artists @ concat (map (\<lambda>j. cursor_items (pages j)) [k..<Suc n])),
                 reqs @ map (\<lambda>j. followed_request (after j)) [k..<Suc n])"
proof (induction "n - k" arbitrary: k artists reqs)
  case 0
  then have kn: "k = n" by simp
  have src: "page_source pages reqs (followed_request (after n)) = Inr (pages n)"
    using 0 kn by (simp add: page_source_def)
  have "followed_loop (page_source pages) (after n) artists reqs =
          Some (Inr (artists @ cursor_items (pages n)), reqs @ [followed_request (after n)])"
    using wf src lst by (intro followed_loop_stop) auto
  then show ?case using kn by simp
next
  case (Suc d)
  then have kn: "k < n" by simp
  have src: "page_source pages reqs (followed_request (after k)) = Inr (pages k)"
    using Suc.prems by (simp add: page_source_def)
  have "followed_loop (page_source pages) (after k) artists reqs =
        followed_loop (page_source pages) (after (Suc k)) (artists @ cursor_items (pages k))
          (reqs @ [followed_request (after k)])"
    using wf nx kn src by (intro followed_loop_next) auto
  also have "\<dots> = Some (Inr ((artists @ cursor_items (pages k)) @
                 concat (map (\<lambda>j. cursor_items (pages j)) [Suc k..<Suc n])),
                 (reqs @ [followed_request (after k)]) @
                 map (\<lambda>j. followed_request (after j)) [Suc k..<Suc n])"
    using Suc.hyps(2) Suc.prems kn by (intro Suc.hyps(1)) auto
  finally have run: "followed_loop (page_source pages) (after k) artists reqs =
        Some (Inr ((artists @ cursor_items (pages k)) @
                 concat (map (\<lambda>j. cursor_items (pages j)) [Suc k..<Suc n])),
                 (reqs @ [followed_request (after k)]) @
                 map (\<lambda>j. followed_request (after j)) [Suc k..<Suc n])" .
  have "[k..<Suc n] = k # [Suc k..<Suc n]"
    using kn by (simp add: upt_conv_Cons)
  with run show ?case by simp
qed

text \<open>
  C4. Let the client serve well-formed pages \<open>0, \<dots>, n\<close> without failing, where every
  page before the last announces more and has a non-empty item list whose last item is a
  dictionary with an \<open>id\<close>, and where page \<open>n\<close> announces no more or has no items.
  Let \<open>after 0\<close> be \<open>None\<close> and \<open>after (j + 1)\<close> the \<open>id\<close> of the last item
  of page \<open>j\<close>. Then \<open>get_followed_artists\<close> makes exactly \<open>n + 1\<close> calls, call
  \<open>j\<close> being \<open>current_user_followed_artists(limit=50, after=after j)\<close>, and returns
  the concatenation of the item lists of all pages in order. With \<open>n = 0\<close>: a first page
  without items gives the empty list after exactly one call.
\<close>

theorem followed_artists_cursor_walk:
  assumes "\<forall>j\<le>n. well_formed_artists_page (pages j)"
    and "\<forall>j<n. cursor_more (pages j) \<and> cursor_items (pages j) \<noteq> [] \<and>
                item_field ''id'' (last (cursor_items (pages j))) = Some (after (Suc j))"
    and "\<not> cursor_more (pages n) \<or> cursor_items (pages n) = []"
    and "after 0 = JNull"
  shows "get_followed_artists (page_source pages) [] =
           Some (Inr (concat (map (\<lambda>j. cursor_items (pages j)) [0..<Suc n])),
                 map (\<lambda>j. Call ''current_user_followed_artists'' []
                              [(''limit'', JInt 50), (''after'', after j)])
                   [0..<Suc n])"
proof -
  have nx: "\<forall>j<n. cursor_more (pages j) \<and> cursor_items (pages j) \<noteq> [] \<and>
                last_id (JList (cursor_items (pages j))) = Inr (after (Suc j))"
    using assms(2) by (simp add: last_id_item)
  have "followed_loop (page_source pages) (after 0) [] [] =
           Some (Inr ([] @ concat (map (\<lambda>j. cursor_items (pages j)) [0..<Suc n])),
                 [] @ map (\<lambda>j. followed_request (after j)) [0..<Suc n])"
    using assms(1) nx assms(3) by (rule followed_loop_pages) simp_all
  then show ?thesis
    using assms(4) by (simp add: get_followed_artists_def followed_request_def)
qed

theorem followed_artists_cursor_walk_witness:
  "well_formed_artists_page (demo_artists 0) \<and> well_formed_artists_page (demo_artists 1) \<and>
   cursor_more (demo_artists 0) \<and>
   cursor_items (demo_artists 0) = [artist ''x'', artist ''y''] \<and>
   item_field ''id'' (artist ''y'') = Some (JStr ''y'') \<and>
   \<not> cursor_more (demo_artists 1) \<and>
   get_followed_artists (page_source demo_artists) [] =
     Some (Inr [artist ''x'', artist ''y'', artist ''z''],
           [Call ''current_user_followed_artists'' [] [(''limit'', JInt 50), (''after'', JNull)],
            Call ''current_user_followed_artists'' [] [(''limit'', JInt 50), (''after'', JStr ''y'')]]) \<and>
   well_formed_artists_page (artists_page [] (JStr ''after='')) \<and>
   cursor_items (artists_page [] (JStr ''after='')) = [] \<and>
   get_followed_artists (page_source (always (artists_page [] (JStr ''after='')))) [] =
     Some (Inr [],
           [Call ''current_user_followed_artists'' [] [(''limit'', JInt 50), (''after'', JNull)]])"
proof -
  have ci: "cursor_items (artists_page xs nxt) = xs" for xs nxt
    by (simp add: cursor_items_def artists_page_def)
  have cm: "cursor_more (artists_page xs nxt) = truthy nxt" for xs nxt
    by (simp add: cursor_more_def artists_page_def)
  have wfp: "well_formed_artists_page (artists_page xs nxt)" for xs nxt
    by (simp add: well_formed_artists_page_def artists_page_def)
  have idy: "item_field ''id'' (artist ''y'') = Some (JStr ''y'')"
    by (simp add: item_field_def artist_def)
  have c0: "cursor_items (demo_artists 0) = [artist ''x'', artist ''y'']"
    by (simp add: demo_artists_def ci)
  have a1: "\<forall>j\<le>1. well_formed_artists_page (demo_artists j)"
    by (simp add: demo_artists_def wfp)
  have a2: "\<forall>j<1. cursor_more (demo_artists j) \<and> cursor_items (demo_artists j) \<noteq> [] \<and>
                item_field ''id'' (last (cursor_items (demo_artists j))) = Some (demo_after (Suc j))"
    using idy by (simp add: demo_artists_def demo_after_def ci cm)
  have a3: "\<not> cursor_more (demo_artists 1) \<or> cursor_items (demo_artists 1) = []"
    by (simp add: demo_artists_def cm)
  have a4: "demo_after 0 = JNull"
    by (simp add: demo_after_def)
  have u: "[0..<Suc 1] = [0, 1]" "[0..<Suc 0] = [0]"
    by (simp_all add: upt_rec)
  have m: "concat (map (\<lambda>j. cursor_items (demo_artists j)) [0, 1]) =
             [artist ''x'', artist ''y'', artist ''z'']"
    "map (\<lambda>j. Call ''current_user_followed_artists'' []
                 [(''limit'', JInt 50), (''after'', demo_after j)]) [0, 1] =
       [Call ''current_user_followed_artists'' [] [(''limit'', JInt 50), (''after'', JNull)],
        Call ''current_user_followed_artists'' [] [(''limit'', JInt 50), (''after'', JStr ''y'')]]"
    by (simp_all add: demo_artists_def demo_after_def ci)
  have r1: "get_followed_artists (page_source demo_artists) [] =
     Some (Inr [artist ''x'', artist ''y'', artist ''z''],
           [Call ''current_user_followed_artists'' [] [(''limit'', JInt 50), (''after'', JNull)],
            Call ''current_user_followed_artists'' [] [(''limit'', JInt 50), (''after'', JStr ''y'')]])"
    using followed_artists_cursor_walk [OF a1 a2 a3 a4] unfolding u m by simp
  have b1: "\<forall>j\<le>0::nat. well_formed_artists_page (always (artists_page [] (JStr ''after='')) j)"
    by (simp add: always_def wfp)
  have b2: "\<forall>j<0::nat. cursor_more (always (artists_page [] (JStr ''after='')) j) \<and>
                cursor_items (always (artists_page [] (JStr ''after='')) j) \<noteq> [] \<and>
                item_field ''id'' (last (cursor_items (always (artists_page [] (JStr ''after='')) j))) =
                  Some (demo_after (Suc j))"
    by simp
  have b3: "\<not> cursor_more (always (artists_page [] (JStr ''after='')) 0) \<or>
            cursor_items (always (artists_page [] (JStr ''after='')) 0) = []"
    by (simp add: always_def ci)
  have m2: "concat (map (\<lambda>j. cursor_items (always (artists_page [] (JStr ''after='')) j)) [0]) = []"
    "map (\<lambda>j. Call ''current_user_followed_artists'' []
                 [(''limit'', JInt 50), (''after'', demo_after j)]) [0] =
       [Call ''current_user_followed_artists'' [] [(''limit'', JInt 50), (''after'', JNull)]]"
    by (simp_all add: always_def ci demo_after_def)
  have r2: "get_followed_artists (page_source (always (artists_page [] (JStr ''after='')))) [] =
     Some (Inr [],
           [Call ''current_user_followed_artists'' [] [(''limit'', JInt 50), (''after'', JNull)]])"
    using followed_artists_cursor_walk [OF b1 b2 b3 a4] unfolding u m2 by simp
  have w: "well_formed_artists_page (demo_artists 0)" "well_formed_artists_page (demo_artists 1)"
    "cursor_more (demo_artists 0)" "\<not> cursor_more (demo_artists 1)"
    by (simp_all add: demo_artists_def wfp cm)
  from w c0 idy r1 wfp [of "[]" "JStr ''after=''"] ci [of "[]" "JStr ''after=''"] r2
  show ?thesis by simp
qed

section \<open>Properties of the merge\<close>

lemma item_field_dict: "item_field f (JDict d) = map_of d f"
  by (simp add: item_field_def)

lemma existing_ids_keyed:
  assumes "\<forall>item\<in>set es. keyed_item f item"
  shows "existing_ids_of f es = Inr (List.map_filter (item_field f) es)"
  using assms
proof (induction es)
  case Nil
  then show ?case by (simp add: List.map_filter_simps)
next
  case (Cons item es)
  then obtain d where d: "item = JDict d" "case map_of d f of Some v \<Rightarrow> hashable v | None \<Rightarrow> True"
    by (cases item) (auto simp: keyed_item_def)
  from Cons have IH: "existing_ids_of f es = Inr (List.map_filter (item_field f) es)"
    by simp
  show ?case
  proof (cases "map_of d f")
    case None
    with d IH show ?thesis
      by (simp add: map_of_in_keys item_field_dict List.map_filter_simps)
  next
    case (Some v)
    with d IH show ?thesis
      by (simp add: map_of_in_keys item_field_dict List.map_filter_simps)
  qed
qed

lemma in_ids_map_filter:
  "in_ids v (List.map_filter (item_field f) es) =
     list_ex (\<lambda>e. case item_field f e of Some w \<Rightarrow> py_eq v w | None \<Rightarrow> False) es"
  by (induction es) (auto simp: in_ids_def List.map_filter_simps split: option.splits)

lemma append_new_keyed:
  assumes "\<forall>item\<in>set ns. keyed_item f item"
  shows "append_new f (List.map_filter (item_field f) es) ns merged =
           Inr (merged @ filter (\<lambda>item. \<not> collides f es item) ns)"
  using assms
proof (induction ns arbitrary: merged)
  case Nil
  then show ?case by simp
next
  case (Cons item ns)
  then obtain d where d: "item = JDict d" "case map_of d f of Some v \<Rightarrow> hashable v | None \<Rightarrow> True"
    by (cases item) (auto simp: keyed_item_def)
  from Cons have IH: "append_new f (List.map_filter (item_field f) es) ns m =
           Inr (m @ filter (\<lambda>item. \<not> collides f es item) ns)" for m
    by simp
  show ?case
  proof (cases "map_of d f")
    case None
    with d IH show ?thesis
      by (simp add: map_of_in_keys item_field_dict collides_def)
  next
    case (Some v)
    with d IH show ?thesis
      by (simp add: map_of_in_keys item_field_dict collides_def in_ids_map_filter)
  qed
qed

lemma merged_metadata_mapping:
  assumes "metadata_is_mapping existing_data" "metadata_is_mapping new_data"
  shows "\<exists>md. merged_metadata_of now existing_data new_data = Inr md"
proof (cases "''metadata'' \<in> fst ` set existing_data \<and> ''metadata'' \<in> fst ` set new_data")
  case True
  then obtain ev nv where "map_of existing_data ''metadata'' = Some ev"
    "map_of new_data ''metadata'' = Some nv"
    by (auto simp: map_of_in_keys)
  moreover from this assms obtain em nm where "ev = JDict em" "nv = JDict nm"
    by (cases ev; cases nv) (auto simp: metadata_is_mapping_def)
  ultimately show ?thesis
    using True by (simp add: merged_metadata_of_def)
next
  case False
  then show ?thesis
    by (auto simp: merged_metadata_of_def)
qed

lemma find_none_ex: "find P xs = None \<longleftrightarrow> \<not> list_ex P xs"
  by (auto simp: find_None_iff list_ex_iff)

lemma find_id_field_loop_dict:
  "find_id_field_loop (JDict d # es) =
     (if has_id_field (JDict d) then find (\<lambda>field. field \<in> fst ` set d) id_fields
      else find_id_field_loop es)"
proof (cases "find (\<lambda>field. field \<in> fst ` set d) id_fields")
  case None
  then show ?thesis
    using find_none_ex [of "\<lambda>field. field \<in> fst ` set d" id_fields]
    by (simp add: has_id_field_def)
next
  case (Some f)
  then show ?thesis
    using find_none_ex [of "\<lambda>field. field \<in> fst ` set d" id_fields]
    by (simp add: has_id_field_def)
qed

lemma has_id_field_is_dict: "has_id_field item \<Longrightarrow> is_dict item"
  by (cases item) (simp_all add: has_id_field_def)

lemma find_id_field_loop_skip:
  assumes "\<not> has_id_field item"
  shows "find_id_field_loop (item # es) = find_id_field_loop es"
proof (cases item)
  case (JDict d)
  with assms show ?thesis
    by (simp add: find_id_field_loop_dict del: find_id_field_loop.simps)
qed simp_all

lemma find_id_field_loop_hit:
  "has_id_field (JDict d) \<Longrightarrow>
     \<exists>f. find (\<lambda>field. field \<in> fst ` set d) id_fields = Some f \<and>
         find_id_field_loop (JDict d # es) = Some f"
  using find_none_ex [of "\<lambda>field. field \<in> fst ` set d" id_fields]
  by (cases "find (\<lambda>field. field \<in> fst ` set d) id_fields")
     (simp_all add: find_id_field_loop_dict has_id_field_def del: find_id_field_loop.simps)

lemma find_id_field_loop_none:
  "find_id_field_loop es = None \<longleftrightarrow> (\<forall>item\<in>set es. \<not> has_id_field item)"
proof (induction es)
  case Nil
  then show ?case by simp
next
  case (Cons item es)
  show ?case
  proof (cases "has_id_field item")
    case True
    then obtain d where "item = JDict d"
      by (cases item) (auto simp: has_id_field_def)
    with True find_id_field_loop_hit [of d es] show ?thesis
      by auto
  next
    case False
    with Cons show ?thesis
      by (simp add: find_id_field_loop_skip del: find_id_field_loop.simps)
  qed
qed

lemma find_id_field_list: "find_id_field (JList es) = find_id_field_loop es"
  by (cases es) (simp_all add: find_id_field_def)

lemma find_id_field_loop_some:
  "find_id_field_loop es = Some f \<Longrightarrow>
     \<exists>pre d post. es = pre @ JDict d # post \<and> (\<forall>item\<in>set pre. \<not> has_id_field item) \<and>
        find (\<lambda>field. field \<in> fst ` set d) id_fields = Some f"
proof (induction es)
  case Nil
  then show ?case by simp
next
  case (Cons item es)
  show ?case
  proof (cases "has_id_field item")
    case True
    then obtain d where d: "item = JDict d"
      by (cases item) (auto simp: has_id_field_def)
    with True Cons.prems find_id_field_loop_hit [of d es]
    have "find (\<lambda>field. field \<in> fst ` set d) id_fields = Some f"
      by auto
    with d have "item # es = [] @ JDict d # es \<and> (\<forall>item\<in>set []. \<not> has_id_field item) \<and>
        find (\<lambda>field. field \<in> fst ` set d) id_fields = Some f"
      by simp
    then show ?thesis by blast
  next
    case False
    then have "find_id_field_loop (item # es) = find_id_field_loop es"
      by (rule find_id_field_loop_skip)
    with Cons obtain pre d post where "es = pre @ JDict d # post"
      "\<forall>item\<in>set pre. \<not> has_id_field item"
      "find (\<lambda>field. field \<in> fst ` set d) id_fields = Some f"
      by auto
    with False have "item # es = (item # pre) @ JDict d # post \<and>
        (\<forall>item\<in>set (item # pre). \<not> has_id_field item) \<and>
        find (\<lambda>field. field \<in> fst ` set d) id_fields = Some f"
      by simp
    then show ?thesis by blast
  qed
qed

lemma merged_data_lists:
  assumes "map_of existing_data ''data'' = Some (JList es)"
    "map_of new_data ''data'' = Some (JList ns)"
  shows "merged_data_of existing_data new_data =
           (case find_id_field (JList es) of
              Some f \<Rightarrow>
                (case existing_ids_of f es of
                   Inl e \<Rightarrow> Inl e
                 | Inr ids \<Rightarrow>
                     (case append_new f ids ns es of
                        Inl e \<Rightarrow> Inl e
                      | Inr merged \<Rightarrow> Inr (JList merged)))
            | None \<Rightarrow> Inr (JList (es @ ns)))"
  using assms by (simp add: merged_data_of_def map_of_in_keys split: option.splits sum.splits)

lemma merge_with_metadata:
  assumes "metadata_is_mapping existing_data" "metadata_is_mapping new_data"
    "merged_data_of existing_data new_data = Inr dat"
  shows "\<exists>md. merge_json_data now existing_data new_data = Inr [(''metadata'', md), (''data'', dat)]"
proof -
  from merged_metadata_mapping [OF assms(1,2)] obtain md where
    "merged_metadata_of now existing_data new_data = Inr md" by blast
  with assms(3) show ?thesis
    by (simp add: merge_json_data_def)
qed

lemmas merge_eval =
  merge_json_data_def merged_metadata_of_def merged_data_of_def find_id_field_def id_fields_def
  in_ids_def py_eq_def export_record_def

text \<open>
  C5, as the code has it. Let both records carry a list under \<open>data\<close>, let
  \<open>_find_id_field\<close> find the field \<open>f\<close> in the existing list, let every item of
  both lists be a dictionary whose value under \<open>f\<close>, if any, is hashable, and let the
  \<open>metadata\<close> of each record, if any, be a mapping. Then the merged data is the existing
  list, unchanged and in order, followed by exactly those items of the new list, in their
  order, that have no field \<open>f\<close> or whose value under \<open>f\<close> equals (as Python
  compares) no value under \<open>f\<close> of an existing item. The field \<open>f\<close> is the first of
  \<open>id\<close>, \<open>uri\<close>, \<open>href\<close> that is a key of the first existing item that is a
  dictionary with any of these keys.
\<close>

theorem merge_dedups_by_id_field:
  assumes "map_of existing_data ''data'' = Some (JList es)"
    and "map_of new_data ''data'' = Some (JList ns)"
    and "find_id_field (JList es) = Some f"
    and "\<forall>item\<in>set es \<union> set ns. keyed_item f item"
    and "metadata_is_mapping existing_data" and "metadata_is_mapping new_data"
  shows "(\<exists>md. merge_json_data now existing_data new_data =
            Inr [(''metadata'', md),
                 (''data'', JList (es @ filter (\<lambda>item. \<not> collides f es item) ns))]) \<and>
         (\<exists>pre d post. es = pre @ JDict d # post \<and> (\<forall>item\<in>set pre. \<not> has_id_field item) \<and>
            find (\<lambda>field. field \<in> fst ` set d) id_fields = Some f)"
proof
  have ke: "\<forall>item\<in>set es. keyed_item f item" and kn: "\<forall>item\<in>set ns. keyed_item f item"
    using assms(4) by auto
  have "merged_data_of existing_data new_data =
          Inr (JList (es @ filter (\<lambda>item. \<not> collides f es item) ns))"
    using assms(3)
    by (simp add: merged_data_lists [OF assms(1,2)] existing_ids_keyed [OF ke]
        append_new_keyed [OF kn])
  with assms(5,6)
  show "\<exists>md. merge_json_data now existing_data new_data =
            Inr [(''metadata'', md),
                 (''data'', JList (es @ filter (\<lambda>item. \<not> collides f es item) ns))]"
    by (rule merge_with_metadata)
next
  from assms(3) have "find_id_field_loop es = Some f"
    by (simp add: find_id_field_list)
  then show "\<exists>pre d post. es = pre @ JDict d # post \<and> (\<forall>item\<in>set pre. \<not> has_id_field item) \<and>
            find (\<lambda>field. field \<in> fst ` set d) id_fields = Some f"
    by (rule find_id_field_loop_some)
qed

theorem merge_dedups_by_id_field_witness:
  "find_id_field (JList [JDict [(''id'', JInt 1), (''v'', JStr ''a'')]]) = Some ''id'' \<and>
   (\<exists>md. merge_json_data ''2024-03-01T00:00:00'' spec_existing spec_new =
      Inr [(''metadata'', md),
           (''data'', JList [JDict [(''id'', JInt 1), (''v'', JStr ''a'')],
                             JDict [(''id'', JInt 2), (''v'', JStr ''c'')],
                             JDict [(''v'', JStr ''d'')]])])"
proof -
  let ?es = "[JDict [(''id'', JInt 1), (''v'', JStr ''a'')]]"
  let ?ns = "[JDict [(''id'', JInt 1), (''v'', JStr ''b'')],
               JDict [(''id'', JInt 2), (''v'', JStr ''c'')],
               JDict [(''v'', JStr ''d'')]]"
  have h1: "map_of spec_existing ''data'' = Some (JList ?es)"
    by (simp add: spec_existing_def export_record_def)
  have h2: "map_of spec_new ''data'' = Some (JList ?ns)"
    by (simp add: spec_new_def export_record_def)
  have h3: "find_id_field (JList ?es) = Some ''id''"
    by (simp add: find_id_field_def id_fields_def)
  have h4: "\<forall>item\<in>set ?es \<union> set ?ns. keyed_item ''id'' item"
    by (simp add: keyed_item_def)
  have h5: "metadata_is_mapping spec_existing" and h6: "metadata_is_mapping spec_new"
    by (simp_all add: metadata_is_mapping_def spec_existing_def spec_new_def export_record_def)
  have fl: "?es @ filter (\<lambda>item. \<not> collides ''id'' ?es item) ?ns =
        [JDict [(''id'', JInt 1), (''v'', JStr ''a'')],
         JDict [(''id'', JInt 2), (''v'', JStr ''c'')],
         JDict [(''v'', JStr ''d'')]]"
    by (simp add: collides_def item_field_def py_eq_def)
  from merge_dedups_by_id_field [OF h1 h2 h3 h4 h5 h6, of "''2024-03-01T00:00:00''", THEN conjunct1]
  have "\<exists>md. merge_json_data ''2024-03-01T00:00:00'' spec_existing spec_new =
      Inr [(''metadata'', md),
           (''data'', JList [JDict [(''id'', JInt 1), (''v'', JStr ''a'')],
                             JDict [(''id'', JInt 2), (''v'', JStr ''c'')],
                             JDict [(''v'', JStr ''d'')]])]"
    unfolding fl .
  with h3 show ?thesis by blast
qed

text \<open>
  C5 as stated fails in two ways. The existing items \<open>[{uri: u1}, {id: 1}]\<close> do have an
  \<open>id\<close>, the first field in the priority order, yet the field chosen is \<open>uri\<close>,
  that of the first item: the new item \<open>{id: 1, uri: u2}\<close> is appended although its
  \<open>id\<close> occurs among the existing ones. And an existing item whose \<open>id\<close> is a list
  makes the merge raise \<open>TypeError\<close>, since a list cannot be a member of a set.
\<close>

theorem merge_dedups_by_id_field_counterexample:
  "merge_json_data ''2024-03-01T00:00:00'' mixed_existing mixed_new =
     Inr [(''metadata'', JDict [(''export_date'', JStr ''2024-01-01T09:00:00''),
                               (''export_type'', JStr ''LibraryExporter''),
                               (''update_date'', JStr ''2024-02-01T09:00:00''),
                               (''previous_export_date'', JStr ''2024-01-01T09:00:00'')]),
          (''data'', JList [JDict [(''uri'', JStr ''u1'')], JDict [(''id'', JInt 1)],
                            JDict [(''id'', JInt 1), (''uri'', JStr ''u2'')]])] \<and>
   merge_json_data ''2024-03-01T00:00:00'' list_id_existing spec_new = Inl TypeError"
  by (simp add: merge_eval mixed_existing_def mixed_new_def list_id_existing_def spec_new_def)

text \<open>
  C6. Let the \<open>metadata\<close> of each record, if any, be a mapping. When both records carry
  a list under \<open>data\<close> and no item of the existing list is a dictionary with a key
  \<open>id\<close>, \<open>uri\<close> or \<open>href\<close>, the merged data is the existing list followed by
  the new list, nothing removed. When both records have a \<open>data\<close> field and one of the
  two is not a list, the merged data is the new record's data.
\<close>

theorem merge_without_id_field:
  assumes "metadata_is_mapping existing_data" and "metadata_is_mapping new_data"
  shows "(\<forall>es ns. map_of existing_data ''data'' = Some (JList es) \<and>
                  map_of new_data ''data'' = Some (JList ns) \<and>
                  (\<forall>item\<in>set es. \<not> has_id_field item) \<longrightarrow>
            (\<exists>md. merge_json_data now existing_data new_data =
                     Inr [(''metadata'', md), (''data'', JList (es @ ns))])) \<and>
         (\<forall>ed nd. map_of existing_data ''data'' = Some ed \<and> map_of new_data ''data'' = Some nd \<and>
                  \<not> (is_list ed \<and> is_list nd) \<longrightarrow>
            (\<exists>md. merge_json_data now existing_data new_data =
                     Inr [(''metadata'', md), (''data'', nd)]))"
proof (intro conjI allI impI)
  fix es ns
  assume a: "map_of existing_data ''data'' = Some (JList es) \<and>
             map_of new_data ''data'' = Some (JList ns) \<and> (\<forall>item\<in>set es. \<not> has_id_field item)"
  then have "find_id_field (JList es) = None"
    by (simp add: find_id_field_list find_id_field_loop_none)
  with a have "merged_data_of existing_data new_data = Inr (JList (es @ ns))"
    by (simp add: merged_data_lists)
  with assms show "\<exists>md. merge_json_data now existing_data new_data =
                     Inr [(''metadata'', md), (''data'', JList (es @ ns))]"
    by (rule merge_with_metadata)
next
  fix ed nd
  assume a: "map_of existing_data ''data'' = Some ed \<and> map_of new_data ''data'' = Some nd \<and>
             \<not> (is_list ed \<and> is_list nd)"
  then have "merged_data_of existing_data new_data = Inr nd"
    by (auto simp: merged_data_of_def map_of_in_keys)
  with assms show "\<exists>md. merge_json_data now existing_data new_data =
                     Inr [(''metadata'', md), (''data'', nd)]"
    by (rule merge_with_metadata)
qed

theorem merge_without_id_field_witness:
  "(\<exists>md. merge_json_data ''2024-03-01T00:00:00'' plain_existing plain_new =
      Inr [(''metadata'', md),
           (''data'', JList [JDict [(''name'', JStr ''a'')], JStr ''id'',
                             JDict [(''name'', JStr ''a'')], JDict [(''id'', JInt 7)]])]) \<and>
   (\<exists>md. merge_json_data ''2024-03-01T00:00:00'' profile_existing plain_new =
      Inr [(''metadata'', md),
           (''data'', JList [JDict [(''name'', JStr ''a'')], JDict [(''id'', JInt 7)]])])"
proof -
  let ?es = "[JDict [(''name'', JStr ''a'')], JStr ''id'']"
  let ?ns = "[JDict [(''name'', JStr ''a'')], JDict [(''id'', JInt 7)]]"
  have m: "metadata_is_mapping plain_existing" "metadata_is_mapping plain_new"
    "metadata_is_mapping profile_existing"
    by (simp_all add: metadata_is_mapping_def plain_existing_def plain_new_def
        profile_existing_def export_record_def)
  have a: "map_of plain_existing ''data'' = Some (JList ?es) \<and>
           map_of plain_new ''data'' = Some (JList ?ns) \<and>
           (\<forall>item\<in>set ?es. \<not> has_id_field item)"
    by (simp add: plain_existing_def plain_new_def export_record_def has_id_field_def id_fields_def)
  have b: "map_of profile_existing ''data'' = Some (JDict [(''display_name'', JStr ''old'')]) \<and>
           map_of plain_new ''data'' = Some (JList ?ns) \<and>
           \<not> (is_list (JDict [(''display_name'', JStr ''old'')]) \<and> is_list (JList ?ns))"
    by (simp add: profile_existing_def plain_new_def export_record_def)
  from merge_without_id_field [OF m(1,2), of "''2024-03-01T00:00:00''", THEN conjunct1,
      rule_format, OF a]
  have r1: "\<exists>md. merge_json_data ''2024-03-01T00:00:00'' plain_existing plain_new =
      Inr [(''metadata'', md), (''data'', JList (?es @ ?ns))]" .
  from merge_without_id_field [OF m(3,2), of "''2024-03-01T00:00:00''", THEN conjunct2,
      rule_format, OF b]
  have r2: "\<exists>md. merge_json_data ''2024-03-01T00:00:00'' profile_existing plain_new =
      Inr [(''metadata'', md), (''data'', JList ?ns)]" .
  from r1 r2 show ?thesis by simp
qed

text \<open>
  The clock is read only for a default that an Export Record never needs: where the
  \<open>metadata\<close> of the new record, if it is a mapping, has an \<open>export_date\<close>, the
  merged record is the same whatever the clock reads.
\<close>

lemma merge_clock_free:
  assumes "\<forall>nm. map_of new_data ''metadata'' = Some (JDict nm) \<longrightarrow> ''export_date'' \<in> fst ` set nm"
  shows "merge_json_data now existing_data new_data = merge_json_data now' existing_data new_data"
proof -
  have "merged_metadata_of now existing_data new_data = merged_metadata_of now' existing_data new_data"
  proof (cases "''metadata'' \<in> fst ` set existing_data \<and> ''metadata'' \<in> fst ` set new_data")
    case True
    then obtain ev nv where v: "map_of existing_data ''metadata'' = Some ev"
      "map_of new_data ''metadata'' = Some nv"
      by (auto simp: map_of_in_keys)
    have "py_get nv ''export_date'' (JStr now) = py_get nv ''export_date'' (JStr now')"
    proof (cases nv)
      case (JDict nm)
      with assms v(2) have "map_of nm ''export_date'' \<noteq> None"
        by (simp add: map_of_in_keys)
      with JDict show ?thesis by auto
    qed simp_all
    with True v show ?thesis
      by (simp add: merged_metadata_of_def split: json.splits)
  next
    case False
    then show ?thesis
      by (auto simp: merged_metadata_of_def)
  qed
  then show ?thesis
    by (simp add: merge_json_data_def)
qed

lemma export_record_dated:
  assumes "is_export_record r" "map_of r ''metadata'' = Some (JDict nm)"
  shows "''export_date'' \<in> fst ` set nm"
proof -
  from assms have "map_of nm ''export_date'' \<noteq> None"
    by (cases "map_of nm ''export_date''") (simp_all add: is_export_record_def split: option.splits)
  then show ?thesis
    by (simp add: map_of_in_keys)
qed

subsection \<open>The merge on the heap\<close>

lemma preserved_refl: "preserved w w"
  by (simp add: preserved_def)

lemma preserved_trans: "preserved w w1 \<Longrightarrow> preserved w1 w2 \<Longrightarrow> preserved w w2"
  by (auto simp: preserved_def)

lemma content_preserved:
  assumes "preserved w w'" "content_at w a = Some v"
  shows "content_at w' a = Some v"
proof -
  from assms(1) obtain zs where zs: "heap w' = heap w @ zs"
    by (auto simp: preserved_def prefix_def)
  from assms(2) have "a < length (heap w)"
    by (simp add: content_at_def split: if_splits)
  with assms(2) zs show ?thesis
    by (simp add: content_at_def nth_append)
qed

lemma fields_preserved:
  assumes "preserved w w'" "fields_at w a = Some refs"
  shows "fields_at w' a = Some refs"
proof -
  from assms(1) obtain zs where zs: "heap w' = heap w @ zs"
    by (auto simp: preserved_def prefix_def)
  from assms(2) have "a < length (heap w)"
    by (simp add: fields_at_def split: if_splits)
  with assms(2) zs show ?thesis
    by (simp add: fields_at_def nth_append)
qed

lemma contents_preserved:
  assumes "preserved w w'"
  shows "contents_of w refs = Some r \<Longrightarrow> contents_of w' refs = Some r"
proof (induction refs arbitrary: r)
  case Nil
  then show ?case by simp
next
  case (Cons kr refs)
  obtain k a where kr: "kr = (k, a)" by (cases kr)
  from Cons.prems kr obtain v rest where v: "content_at w a = Some v"
    "contents_of w refs = Some rest" "r = (k, v) # rest"
    by (auto split: option.splits)
  from content_preserved [OF assms v(1)] Cons.IH [OF v(2)] v(3) kr show ?case
    by simp
qed

lemma record_preserved:
  assumes "preserved w w'" "record_at w a = Some r"
  shows "record_at w' a = Some r"
proof -
  from assms(2) obtain refs where r: "fields_at w a = Some refs" "contents_of w refs = Some r"
    by (auto simp: record_at_def split: option.splits)
  from fields_preserved [OF assms(1) r(1)] contents_preserved [OF assms(1) r(2)] show ?thesis
    by (simp add: record_at_def)
qed

text \<open>A record on the heap has the keys and the values of the record it denotes.\<close>

lemma contents_lookup:
  "contents_of w refs = Some r \<Longrightarrow>
     deref w refs k = map_of r k \<and> (k \<in> fst ` set refs \<longleftrightarrow> k \<in> fst ` set r) \<and>
     (\<forall>a. map_of refs k = Some a \<longrightarrow> content_at w a = map_of r k)"
proof (induction refs arbitrary: r)
  case Nil
  then show ?case by (simp add: deref_def)
next
  case (Cons kr refs)
  obtain k' a where kr: "kr = (k', a)" by (cases kr)
  from Cons.prems kr obtain v rest where v: "content_at w a = Some v"
    "contents_of w refs = Some rest" "r = (k', v) # rest"
    by (auto split: option.splits)
  from Cons.IH [OF v(2)] v(1,3) kr show ?case
    by (auto simp: deref_def)
qed

lemma alloc_value:
  assumes "alloc (ValueObj j) w = (a, w1)"
  shows "preserved w w1 \<and> content_at w1 a = Some j"
  using assms by (auto simp: alloc_def preserved_def content_at_def)

lemma merged_metadata_on_refines:
  assumes "contents_of w er = Some e" "contents_of w nr = Some n"
  shows "case merged_metadata_on now w er nr of
           (Inl x, w1) \<Rightarrow> preserved w w1 \<and> merged_metadata_of now e n = Inl x
         | (Inr a, w1) \<Rightarrow>
             preserved w w1 \<and>
             (\<exists>md. content_at w1 a = Some md \<and> merged_metadata_of now e n = Inr md)"
proof -
  note le = contents_lookup [OF assms(1), of "''metadata''"]
  note ln = contents_lookup [OF assms(2), of "''metadata''"]
  show ?thesis
  proof (cases "''metadata'' \<in> fst ` set er \<and> ''metadata'' \<in> fst ` set nr")
    case True
    with le ln obtain ev nv where v: "map_of e ''metadata'' = Some ev" "map_of n ''metadata'' = Some nv"
      "deref w er ''metadata'' = Some ev" "deref w nr ''metadata'' = Some nv"
      by (auto simp: map_of_in_keys)
    from True le ln have keys: "''metadata'' \<in> fst ` set e \<and> ''metadata'' \<in> fst ` set n"
      by simp
    show ?thesis
    proof (cases ev)
      case (JDict em)
      with True keys v show ?thesis
        by (auto simp: merged_metadata_on_def merged_metadata_of_def alloc_def store_def
            preserved_def content_at_def split: sum.splits)
    qed (use True keys v in \<open>simp_all add: merged_metadata_on_def merged_metadata_of_def preserved_def\<close>)
  next
    case False
    with le ln have keys: "\<not> (''metadata'' \<in> fst ` set e \<and> ''metadata'' \<in> fst ` set n)"
      by simp
    show ?thesis
    proof (cases "map_of nr ''metadata''")
      case None
      with ln have "map_of n ''metadata'' = None"
        by (simp add: deref_def)
      with None have "''metadata'' \<notin> fst ` set nr" "''metadata'' \<notin> fst ` set n"
        by (simp_all add: map_of_in_keys)
      with None \<open>map_of n ''metadata'' = None\<close> show ?thesis
        by (simp add: merged_metadata_on_def merged_metadata_of_def alloc_def preserved_def
            content_at_def)
    next
      case (Some a)
      then have "''metadata'' \<in> fst ` set nr"
        by (simp add: map_of_in_keys)
      with ln have "map_of n ''metadata'' \<noteq> None"
        by (simp add: map_of_in_keys)
      moreover from Some ln have "content_at w a = map_of n ''metadata''"
        by simp
      ultimately have "content_at w a = map_of n ''metadata''" and "map_of n ''metadata'' \<noteq> None"
        by simp_all
      with Some False keys show ?thesis
        by (auto simp: merged_metadata_on_def merged_metadata_of_def preserved_def)
    qed
  qed
qed

lemma merged_data_on_refines:
  assumes "contents_of w er = Some e" "contents_of w nr = Some n"
  shows "case merged_data_on w er nr of
           (Inl x, w1) \<Rightarrow> preserved w w1 \<and> merged_data_of e n = Inl x
         | (Inr a, w1) \<Rightarrow>
             preserved w w1 \<and>
             (\<exists>dat. content_at w1 a = Some dat \<and> merged_data_of e n = Inr dat)"
proof -
  note le = contents_lookup [OF assms(1), of "''data''"]
  note ln = contents_lookup [OF assms(2), of "''data''"]
  show ?thesis
  proof (cases "''data'' \<in> fst ` set er \<and> ''data'' \<in> fst ` set nr")
    case True
    with le ln obtain ed nd where v: "map_of e ''data'' = Some ed" "map_of n ''data'' = Some nd"
      "deref w er ''data'' = Some ed" "deref w nr ''data'' = Some nd"
      by (auto simp: map_of_in_keys)
    from True obtain nd_ref where ref: "map_of nr ''data'' = Some nd_ref"
      by (auto simp: map_of_in_keys)
    with ln v(2) have c: "content_at w nd_ref = Some nd"
      by simp
    from True le ln have keys: "''data'' \<in> fst ` set e \<and> ''data'' \<in> fst ` set n"
      by simp
    from True keys v ref c show ?thesis
      by (auto simp: merged_data_on_def merged_data_of_def alloc_def store_def
          preserved_def content_at_def split: sum.splits option.splits)
  next
    case False
    with le ln have keys: "\<not> (''data'' \<in> fst ` set e \<and> ''data'' \<in> fst ` set n)"
      by simp
    show ?thesis
    proof (cases "map_of nr ''data''")
      case None
      with ln have "map_of n ''data'' = None"
        by (simp add: deref_def)
      with None have "''data'' \<notin> fst ` set nr" "''data'' \<notin> fst ` set n"
        by (simp_all add: map_of_in_keys)
      with None \<open>map_of n ''data'' = None\<close> show ?thesis
        by (simp add: merged_data_on_def merged_data_of_def alloc_def preserved_def
            content_at_def)
    next
      case (Some a)
      then have "''data'' \<in> fst ` set nr"
        by (simp add: map_of_in_keys)
      with ln have "map_of n ''data'' \<noteq> None"
        by (simp add: map_of_in_keys)
      moreover from Some ln have "content_at w a = map_of n ''data''"
        by simp
      ultimately have "content_at w a = map_of n ''data''" and "map_of n ''data'' \<noteq> None"
        by simp_all
      with Some False keys show ?thesis
        by (auto simp: merged_data_on_def merged_data_of_def preserved_def)
    qed
  qed
qed

text \<open>
  The function on addresses adds objects only, and what it returns denotes what the
  function on records gives.
\<close>

lemma merge_on_refines:
  assumes "record_at w a = Some e" "record_at w b = Some n"
  shows "preserved w (snd (merge_json_data_on now w a b)) \<and>
         outcome (merge_json_data_on now w a b) = Some (merge_json_data now e n)"
proof -
  from assms obtain er nr where f: "fields_at w a = Some er" "fields_at w b = Some nr"
    and c: "contents_of w er = Some e" "contents_of w nr = Some n"
    by (auto simp: record_at_def split: option.splits)
  obtain rm w1 where m: "merged_metadata_on now w er nr = (rm, w1)"
    by (cases "merged_metadata_on now w er nr")
  show ?thesis
  proof (cases rm)
    case (Inl x)
    with merged_metadata_on_refines [OF c, of now] m
    have "preserved w w1" "merged_metadata_of now e n = Inl x"
      by simp_all
    with f m Inl show ?thesis
      by (simp add: merge_json_data_on_def merge_json_data_def outcome_def)
  next
    case (Inr am)
    with merged_metadata_on_refines [OF c, of now] m obtain md where
      p1: "preserved w w1" and md: "content_at w1 am = Some md"
        "merged_metadata_of now e n = Inr md"
      by auto
    have c1: "contents_of w1 er = Some e" "contents_of w1 nr = Some n"
      using c p1 by (simp_all add: contents_preserved)
    obtain rd w2 where d: "merged_data_on w1 er nr = (rd, w2)"
      by (cases "merged_data_on w1 er nr")
    show ?thesis
    proof (cases rd)
      case (Inl x)
      with merged_data_on_refines [OF c1] d
      have "preserved w1 w2" "merged_data_of e n = Inl x"
        by simp_all
      with f m Inr d Inl md p1 show ?thesis
        by (auto simp: merge_json_data_on_def merge_json_data_def outcome_def
            intro: preserved_trans)
    next
      case r: (Inr ad)
      with merged_data_on_refines [OF c1] d obtain dat where
        p2: "preserved w1 w2" and dat: "content_at w2 ad = Some dat"
          "merged_data_of e n = Inr dat"
        by auto
      let ?ob = "RecordObj [(''metadata'', am), (''data'', ad)]"
      let ?w3 = "snd (alloc ?ob w2)"
      have p3: "preserved w2 ?w3"
        by (simp add: alloc_def preserved_def)
      have run: "merge_json_data_on now w a b = (Inr (length (heap w2)), ?w3)"
        using f m Inr d r by (simp add: merge_json_data_on_def alloc_def)
      have fl: "fields_at ?w3 (length (heap w2)) = Some [(''metadata'', am), (''data'', ad)]"
        by (simp add: alloc_def fields_at_def)
      have "content_at ?w3 am = Some md" "content_at ?w3 ad = Some dat"
        using md(1) dat(1) p2 p3 by (auto intro: content_preserved)
      with fl have "record_at ?w3 (length (heap w2)) = Some [(''metadata'', md), (''data'', dat)]"
        by (simp add: record_at_def)
      moreover have "preserved w ?w3"
        using p1 p2 p3 by (blast intro: preserved_trans)
      ultimately show ?thesis
        using run md(2) dat(2) by (simp add: outcome_def merge_json_data_def)
    qed
  qed
qed

lemmas heap_eval =
  merge_json_data_on_def merged_metadata_on_def merged_data_on_def alloc_def store_def
  fields_at_def content_at_def deref_def record_at_def outcome_def demo_world_def

text \<open>
  C9. Let the two arguments be Export Records, held at any two addresses of any world.
  Then a run of \<open>merge_json_data\<close> leaves the files of the world as they are; it changes
  no object that existed before the call, the heap before being a prefix of the heap after,
  so that both arguments denote after the call the records they denoted before it; and it
  returns or raises what the function \<open>merge_json_data\<close> of the two records gives. Two
  runs, whatever the clock reads and in whatever worlds, on arguments that denote the same
  two Export Records have the same outcome.
\<close>

theorem merge_pure_deterministic:
  assumes "record_at w existing_data = Some e" and "record_at w new_data = Some n"
    and "is_export_record e" and "is_export_record n"
  shows "files (snd (merge_json_data_on now w existing_data new_data)) = files w \<and>
         prefix (heap w) (heap (snd (merge_json_data_on now w existing_data new_data))) \<and>
         record_at (snd (merge_json_data_on now w existing_data new_data)) existing_data = Some e \<and>
         record_at (snd (merge_json_data_on now w existing_data new_data)) new_data = Some n \<and>
         outcome (merge_json_data_on now w existing_data new_data) = Some (merge_json_data now e n) \<and>
         (\<forall>now' w' existing_data' new_data'.
            record_at w' existing_data' = Some e \<and> record_at w' new_data' = Some n \<longrightarrow>
            outcome (merge_json_data_on now' w' existing_data' new_data') =
              outcome (merge_json_data_on now w existing_data new_data))"
proof -
  let ?run = "merge_json_data_on now w existing_data new_data"
  from merge_on_refines [OF assms(1,2), of now]
  have p: "preserved w (snd ?run)" and o: "outcome ?run = Some (merge_json_data now e n)"
    by simp_all
  from p have "files (snd ?run) = files w" "prefix (heap w) (heap (snd ?run))"
    by (simp_all add: preserved_def)
  moreover from p assms(1,2) have "record_at (snd ?run) existing_data = Some e"
    "record_at (snd ?run) new_data = Some n"
    by (simp_all add: record_preserved)
  moreover have "outcome (merge_json_data_on now' w' a b) = outcome ?run"
    if "record_at w' a = Some e \<and> record_at w' b = Some n" for now' w' a b
  proof -
    from that merge_on_refines [of w' a e b n now']
    have "outcome (merge_json_data_on now' w' a b) = Some (merge_json_data now' e n)"
      by simp
    also have "merge_json_data now' e n = merge_json_data now e n"
      by (rule merge_clock_free) (auto dest: export_record_dated [OF assms(4)])
    finally show ?thesis using o by simp
  qed
  ultimately show ?thesis using o by blast
qed

theorem merge_pure_deterministic_witness:
  "record_at demo_world 2 = Some spec_existing \<and> record_at demo_world 5 = Some spec_new \<and>
   is_export_record spec_existing \<and> is_export_record spec_new \<and>
   files (snd (merge_json_data_on ''2024-03-01T00:00:00'' demo_world 2 5)) =
     [(''exports/library.json'', ''{}'')] \<and>
   prefix (heap demo_world) (heap (snd (merge_json_data_on ''2024-03-01T00:00:00'' demo_world 2 5))) \<and>
   record_at (snd (merge_json_data_on ''2024-03-01T00:00:00'' demo_world 2 5)) 2 = Some spec_existing \<and>
   record_at (snd (merge_json_data_on ''2024-03-01T00:00:00'' demo_world 2 5)) 5 = Some spec_new \<and>
   outcome (merge_json_data_on ''2024-03-01T00:00:00'' demo_world 2 5) =
     Some (Inr [(''metadata'', JDict [(''export_date'', JStr ''2024-01-01T09:00:00''),
                                     (''export_type'', JStr ''LibraryExporter''),
                                     (''update_date'', JStr ''2024-02-01T09:00:00''),
                                     (''previous_export_date'', JStr ''2024-01-01T09:00:00'')]),
                (''data'', JList [JDict [(''id'', JInt 1), (''v'', JStr ''a'')],
                                  JDict [(''id'', JInt 2), (''v'', JStr ''c'')],
                                  JDict [(''v'', JStr ''d'')]])]) \<and>
   outcome (merge_json_data_on ''2024-03-01T00:00:01'' demo_world 2 5) =
     outcome (merge_json_data_on ''2024-03-01T00:00:00'' demo_world 2 5)"
proof -
  have h1: "record_at demo_world 2 = Some spec_existing"
    and h2: "record_at demo_world 5 = Some spec_new"
    by (simp_all add: record_at_def fields_at_def content_at_def demo_world_def spec_existing_def
        spec_new_def export_record_def)
  have h3: "is_export_record spec_existing" and h4: "is_export_record spec_new"
    by (simp_all add: is_export_record_def spec_existing_def spec_new_def export_record_def)
  have f: "files demo_world = [(''exports/library.json'', ''{}'')]"
    by (simp add: demo_world_def)
  have e: "merge_json_data ''2024-03-01T00:00:00'' spec_existing spec_new =
     Inr [(''metadata'', JDict [(''export_date'', JStr ''2024-01-01T09:00:00''),
                               (''export_type'', JStr ''LibraryExporter''),
                               (''update_date'', JStr ''2024-02-01T09:00:00''),
                               (''previous_export_date'', JStr ''2024-01-01T09:00:00'')]),
          (''data'', JList [JDict [(''id'', JInt 1), (''v'', JStr ''a'')],
                            JDict [(''id'', JInt 2), (''v'', JStr ''c'')],
                            JDict [(''v'', JStr ''d'')]])]"
    by (simp add: merge_eval spec_existing_def spec_new_def)
  note T = merge_pure_deterministic [OF h1 h2 h3 h4, of "''2024-03-01T00:00:00''"]
  from T have t1: "files (snd (merge_json_data_on ''2024-03-01T00:00:00'' demo_world 2 5)) = files demo_world"
    by (rule conjunct1)
  from T have t2: "prefix (heap demo_world)
      (heap (snd (merge_json_data_on ''2024-03-01T00:00:00'' demo_world 2 5)))"
    by (rule conjunct2 [THEN conjunct1])
  from T have t3: "record_at (snd (merge_json_data_on ''2024-03-01T00:00:00'' demo_world 2 5)) 2 =
      Some spec_existing"
    by (rule conjunct2 [THEN conjunct2, THEN conjunct1])
  from T have t4: "record_at (snd (merge_json_data_on ''2024-03-01T00:00:00'' demo_world 2 5)) 5 =
      Some spec_new"
    by (rule conjunct2 [THEN conjunct2, THEN conjunct2, THEN conjunct1])
  from T have t5: "outcome (merge_json_data_on ''2024-03-01T00:00:00'' demo_world 2 5) =
      Some (merge_json_data ''2024-03-01T00:00:00'' spec_existing spec_new)"
    by (rule conjunct2 [THEN conjunct2, THEN conjunct2, THEN conjunct2, THEN conjunct1])
  from T have t6: "\<forall>now' w' existing_data' new_data'.
            record_at w' existing_data' = Some spec_existing \<and>
            record_at w' new_data' = Some spec_new \<longrightarrow>
            outcome (merge_json_data_on now' w' existing_data' new_data') =
              outcome (merge_json_data_on ''2024-03-01T00:00:00'' demo_world 2 5)"
    by (rule conjunct2 [THEN conjunct2, THEN conjunct2, THEN conjunct2, THEN conjunct2])
  from t6 h1 h2 have t7: "outcome (merge_json_data_on ''2024-03-01T00:00:01'' demo_world 2 5) =
     outcome (merge_json_data_on ''2024-03-01T00:00:00'' demo_world 2 5)"
    by blast
  from h1 h2 h3 h4 t1 t2 t3 t4 t5 t7 show ?thesis
    unfolding f e by blast
qed

end
